theory Spec2Isabelle
  imports Main "HOL-Library.AList" "HOL-Library.Sublist"
begin

section \<open>Breadth-first traversals (lib/algo.ts)\<close>





definition graphBfs_body ::
  "('s \<Rightarrow> 'a \<Rightarrow> 'a list) \<Rightarrow> ('a \<Rightarrow> 's \<Rightarrow> bool \<times> 's) \<Rightarrow> 'a \<Rightarrow> 'a list \<Rightarrow> 'a set \<Rightarrow> 's
     \<Rightarrow> 'a list \<times> 'a set \<times> 's" where
  "graphBfs_body key step c queue visitedNodes s =
     (let visitedNodes' = insert c visitedNodes in
      case step c s of (stop, s') \<Rightarrow>
        if \<not> stop
        then (queue @ filter (\<lambda>nextNode. nextNode \<notin> visitedNodes') (key s' c), visitedNodes', s')
        else (queue, visitedNodes', s'))"

partial_function (option) graphBfs_loop ::
  "('s \<Rightarrow> 'a \<Rightarrow> 'a list) \<Rightarrow> ('a \<Rightarrow> 's \<Rightarrow> bool \<times> 's) \<Rightarrow> 'a list \<Rightarrow> 'a set \<Rightarrow> 's \<Rightarrow> 's option" where
  "graphBfs_loop key step queue visitedNodes s =
     (case queue of
        [] \<Rightarrow> Some s
      | c # rest \<Rightarrow>
          (case graphBfs_body key step c rest visitedNodes s of
             (queue', visitedNodes', s') \<Rightarrow> graphBfs_loop key step queue' visitedNodes' s'))"

declare graphBfs_loop.simps [code]

definition graphBfs ::
  "('s \<Rightarrow> 'a \<Rightarrow> 'a list) \<Rightarrow> ('a \<Rightarrow> 's \<Rightarrow> bool \<times> 's) \<Rightarrow> 'a \<Rightarrow> 's \<Rightarrow> 's option" where
  "graphBfs key step root s = graphBfs_loop key step [root] {} s"

section \<open>Objects, references and the store\<close>

text \<open>
  An object reference is an address: an index into the store, the list of all objects
  allocated so far. An object literal allocates at the end of the store. The objects of
  interest have the properties \<open>nextNodes\<close> (an array of references), \<open>val\<close> and
  \<open>g\<close>; a property that an object does not have reads \<open>None\<close>. An input node
  is any object of the store; a shell node is the literal
  \<open>{val: node, nextNodes: [], g: -1}\<close>.
\<close>

type_synonym addr = nat

record obj =
  nextNodes :: "addr list"
  val :: "addr option"
  g :: "int option"

type_synonym heap = "obj list"

datatype error = TypeError

text \<open>
  The \<open>Map\<close> \<open>node2shellNodes\<close> is an association list in insertion order:
  \<open>set\<close> is \<open>AList.update\<close> (a present key keeps its place, a new key goes to the
  end), \<open>get\<close> is \<open>map_of\<close> and \<open>keys()\<close> is \<open>map fst\<close>. Keys are compared by
  identity, that is by address.
\<close>

type_synonym shell_map = "(addr \<times> addr) list"

text \<open>
  An input node without shell properties, and a shell node wrapping the node \<open>n\<close>
  with the neighbours \<open>ns\<close> and the group identifier \<open>i\<close>.
\<close>

definition plain_node :: "addr list \<Rightarrow> obj" where
  "plain_node ns = \<lparr>nextNodes = ns, val = None, g = None\<rparr>"

definition shell :: "addr \<Rightarrow> addr list \<Rightarrow> int \<Rightarrow> obj" where
  "shell n ns i = \<lparr>nextNodes = ns, val = Some n, g = Some i\<rparr>"

section \<open>getConnectedComponent (lib/algo.ts)\<close>

text \<open>The first loop: one fresh shell node per element of \<open>nodes\<close>, stored in the map.\<close>

fun make_shells :: "addr list \<Rightarrow> shell_map \<Rightarrow> heap \<Rightarrow> shell_map \<times> heap" where
  "make_shells [] node2shellNodes h = (node2shellNodes, h)"
| "make_shells (node # nodes) node2shellNodes h =
     (let shellNode = length h;
          h' = h @ [\<lparr>nextNodes = [], val = Some node, g = Some (- 1)\<rparr>]
      in make_shells nodes (AList.update node shellNode node2shellNodes) h')"

text \<open>\<open>a.nextNodes.push(b)\<close>\<close>

definition push_next :: "addr \<Rightarrow> addr \<Rightarrow> heap \<Rightarrow> heap" where
  "push_next a b h = h[a := (h ! a)\<lparr>nextNodes := nextNodes (h ! a) @ [b]\<rparr>]"

text \<open>
  The inner loop of the second phase, over \<open>node.nextNodes\<close>. A successor that is not
  a key of the map gives \<open>undefined\<close>, and reading \<open>nextShellNode.nextNodes\<close> throws.
\<close>

fun link_nexts :: "shell_map \<Rightarrow> addr \<Rightarrow> addr list \<Rightarrow> heap \<Rightarrow> error + heap" where
  "link_nexts node2shellNodes shellNode [] h = Inr h"
| "link_nexts node2shellNodes shellNode (nextNode # rest) h =
     (case map_of node2shellNodes nextNode of
        None \<Rightarrow> Inl TypeError
      | Some nextShellNode \<Rightarrow>
          link_nexts node2shellNodes shellNode rest
            (push_next nextShellNode shellNode (push_next shellNode nextShellNode h)))"

text \<open>The outer loop of the second phase, over \<open>nodes\<close>.\<close>

fun link_nodes :: "shell_map \<Rightarrow> addr list \<Rightarrow> heap \<Rightarrow> error + heap" where
  "link_nodes node2shellNodes [] h = Inr h"
| "link_nodes node2shellNodes (node # nodes) h =
     (case map_of node2shellNodes node of
        None \<Rightarrow> Inl TypeError
      | Some shellNode \<Rightarrow>
          (case link_nexts node2shellNodes shellNode (nextNodes (h ! node)) h of
             Inl e \<Rightarrow> Inl e
           | Inr h' \<Rightarrow> link_nodes node2shellNodes nodes h'))"

text \<open>The first two phases together: the map and the store that holds the shell graph.\<close>

definition build_shell_graph :: "addr list \<Rightarrow> heap \<Rightarrow> error + shell_map \<times> heap" where
  "build_shell_graph nodes h =
     (case make_shells nodes [] h of
        (node2shellNodes, h1) \<Rightarrow>
          (case link_nodes node2shellNodes nodes h1 of
             Inl e \<Rightarrow> Inl e
           | Inr h2 \<Rightarrow> Inr (node2shellNodes, h2)))"

text \<open>
  The callback of the third phase, \<open>(c) => { c.g = shellNode.g; return false }\<close>, and
  the neighbour list \<open>c["nextNodes"]\<close> that \<open>graphBfs\<close> reads by default.
\<close>

definition assign_step :: "addr \<Rightarrow> addr \<Rightarrow> heap \<Rightarrow> bool \<times> heap" where
  "assign_step shellNode c h = (False, h[c := (h ! c)\<lparr>g := g (h ! shellNode)\<rparr>])"

definition shell_key :: "heap \<Rightarrow> addr \<Rightarrow> addr list" where
  "shell_key h c = nextNodes (h ! c)"

text \<open>The third phase, over the keys of the map, with the counter \<open>cnt\<close>.\<close>

fun assign_groups :: "shell_map \<Rightarrow> addr list \<Rightarrow> int \<Rightarrow> heap \<Rightarrow> (error + int \<times> heap) option" where
  "assign_groups node2shellNodes [] cnt h = Some (Inr (cnt, h))"
| "assign_groups node2shellNodes (node # keys) cnt h =
     (case map_of node2shellNodes node of
        None \<Rightarrow> Some (Inl TypeError)
      | Some shellNode \<Rightarrow>
          if g (h ! shellNode) = Some (- 1)
          then
            (case graphBfs shell_key (assign_step shellNode) shellNode
                    (h[shellNode := (h ! shellNode)\<lparr>g := Some cnt\<rparr>]) of
               None \<Rightarrow> None
             | Some h' \<Rightarrow> assign_groups node2shellNodes keys (cnt + 1) h')
          else assign_groups node2shellNodes keys cnt h)"

text \<open>
  Modelled from the spec: \<open>newMatrix\<close> is imported from \<open>./util\<close>, which is not among
  the source files. The spec has the nodes bucketed into output groups indexed by the
  group identifier, and an empty input give an empty sequence of groups: \<open>newMatrix n\<close>
  is a list of \<open>n\<close> empty groups.
\<close>

definition newMatrix :: "int \<Rightarrow> addr list list" where
  "newMatrix n = replicate (nat n) []"

text \<open>
  The fourth phase, \<open>group[shellNode.g].push(node)\<close> over the keys of the map. An
  index that is not a position of the array \<open>group\<close> (here \<open>groups\<close>) reads \<open>undefined\<close>, and \<open>push\<close> throws.
\<close>

fun fill_groups :: "shell_map \<Rightarrow> addr list \<Rightarrow> heap \<Rightarrow> addr list list \<Rightarrow> error + addr list list" where
  "fill_groups node2shellNodes [] h groups = Inr groups"
| "fill_groups node2shellNodes (node # keys) h groups =
     (case map_of node2shellNodes node of
        None \<Rightarrow> Inl TypeError
      | Some shellNode \<Rightarrow>
          (case g (h ! shellNode) of
             None \<Rightarrow> Inl TypeError
           | Some i \<Rightarrow>
               if 0 \<le> i \<and> nat i < length groups
               then fill_groups node2shellNodes keys h (groups[nat i := groups ! nat i @ [node]])
               else Inl TypeError))"

text \<open>
  The whole function. The result is \<open>None\<close> when a traversal does not return,
  \<open>Some (Inl e)\<close> when the call throws, and \<open>Some (Inr (groups, h'))\<close> when it returns
  \<open>groups\<close> and leaves the store \<open>h'\<close>.
\<close>

definition getConnectedComponent :: "addr list \<Rightarrow> heap \<Rightarrow> (error + addr list list \<times> heap) option" where
  "getConnectedComponent nodes h =
     (case build_shell_graph nodes h of
        Inl e \<Rightarrow> Some (Inl e)
      | Inr (node2shellNodes, h2) \<Rightarrow>
          (case assign_groups node2shellNodes (map fst node2shellNodes) 0 h2 of
             None \<Rightarrow> None
           | Some (Inl e) \<Rightarrow> Some (Inl e)
           | Some (Inr (cnt, h3)) \<Rightarrow>
               (case fill_groups node2shellNodes (map fst node2shellNodes) h3 (newMatrix cnt) of
                  Inl e \<Rightarrow> Some (Inl e)
                | Inr groups \<Rightarrow> Some (Inr (groups, h3)))))"

section \<open>The input graph\<close>

text \<open>
  The input is well formed when every element of \<open>nodes\<close> is an object of the store and
  the collection is closed: every successor of an element is an element. Its edges are
  the pairs \<open>(u, v)\<close> with \<open>v\<close> in \<open>u.nextNodes\<close>; two nodes are connected
  when a path of edges, each taken in either direction, leads from one to the other.
\<close>

definition well_formed :: "heap \<Rightarrow> addr list \<Rightarrow> bool" where
  "well_formed h nodes \<longleftrightarrow>
     (\<forall>u\<in>set nodes. u < length h \<and> set (nextNodes (h ! u)) \<subseteq> set nodes)"

definition edges :: "heap \<Rightarrow> addr list \<Rightarrow> (addr \<times> addr) set" where
  "edges h nodes = {(u, v). u \<in> set nodes \<and> v \<in> set (nextNodes (h ! u))}"

definition connected :: "heap \<Rightarrow> addr list \<Rightarrow> addr \<Rightarrow> addr \<Rightarrow> bool" where
  "connected h nodes a b \<longleftrightarrow> (a, b) \<in> (edges h nodes \<union> (edges h nodes)\<inverse>)\<^sup>*"

text \<open>The elements of a list in the order of their first occurrences.\<close>

definition first_occurrences :: "'a list \<Rightarrow> 'a list" where
  "first_occurrences xs = rev (remdups (rev xs))"

section \<open>Invariants and measures\<close>

text \<open>
  The termination measure of the graph traversal. With \<open>R\<close> the finite set of nodes
  and \<open>D\<close> a bound on the length of the neighbour lists, a queue entry \<open>e\<close> weighs
  \<open>(D + 1) ^ k\<close>, where \<open>k\<close> counts the nodes that are still unvisited once \<open>e\<close>
  has been taken from the queue.
\<close>

definition bfs_weight :: "nat \<Rightarrow> 'a set \<Rightarrow> 'a set \<Rightarrow> 'a \<Rightarrow> nat" where
  "bfs_weight D R V e = Suc D ^ card (R - insert e V)"

definition bfs_measure :: "nat \<Rightarrow> 'a set \<Rightarrow> 'a set \<Rightarrow> 'a list \<Rightarrow> nat" where
  "bfs_measure D R V queue = sum_list (map (bfs_weight D R V) queue)"

text \<open>
  Invariants of the construction. \<open>shells_ok h0 m h\<close>: the store \<open>h\<close> extends the
  store \<open>h0\<close> of the call, and the map \<open>m\<close> sends every key to a shell node that was
  allocated by the call and wraps that key. \<open>linked m h Ed\<close>: the neighbours of the shell of
  \<open>n\<close> are the shells of the nodes joined to \<open>n\<close> by an edge of \<open>Ed\<close>, in
  either direction. \<open>unassigned m h\<close>: every shell still has the group identifier \<open>-1\<close>.
\<close>

definition shells_ok :: "heap \<Rightarrow> shell_map \<Rightarrow> heap \<Rightarrow> bool" where
  "shells_ok h0 m h \<longleftrightarrow>
     length h0 \<le> length h \<and> take (length h0) h = h0 \<and>
     (\<forall>n a. map_of m n = Some a \<longrightarrow> length h0 \<le> a \<and> a < length h \<and> val (h ! a) = Some n)"

definition linked :: "shell_map \<Rightarrow> heap \<Rightarrow> (addr \<times> addr) set \<Rightarrow> bool" where
  "linked m h Ed \<longleftrightarrow>
     (\<forall>n a. map_of m n = Some a \<longrightarrow>
        set (nextNodes (h ! a)) = {b. \<exists>v. map_of m v = Some b \<and> ((n, v) \<in> Ed \<or> (v, n) \<in> Ed)})"

definition unassigned :: "shell_map \<Rightarrow> heap \<Rightarrow> bool" where
  "unassigned m h \<longleftrightarrow> (\<forall>n a. map_of m n = Some a \<longrightarrow> g (h ! a) = Some (- 1))"

definition link_inv :: "heap \<Rightarrow> shell_map \<Rightarrow> heap \<Rightarrow> (addr \<times> addr) set \<Rightarrow> bool" where
  "link_inv h0 m h Ed \<longleftrightarrow> shells_ok h0 m h \<and> linked m h Ed \<and> unassigned m h"

text \<open>
  The neighbour relation of the store, and the invariant of the traversal that
  propagates the identifier \<open>k\<close> from the shell \<open>s\<close>: the visited shells carry
  \<open>k\<close>, every other object is as in the store \<open>h\<close> at the start, and every neighbour
  of a visited shell is visited or queued.
\<close>

definition adj :: "heap \<Rightarrow> (addr \<times> addr) set" where
  "adj h = {(a, b). b \<in> set (nextNodes (h ! a))}"

definition bfs_inv :: "heap \<Rightarrow> addr \<Rightarrow> int \<Rightarrow> addr list \<Rightarrow> addr set \<Rightarrow> heap \<Rightarrow> bool" where
  "bfs_inv h s k queue V hc \<longleftrightarrow>
     length hc = length h \<and>
     (\<forall>a<length h. hc ! a = (if a \<in> V then (h ! a)\<lparr>g := Some k\<rparr> else h ! a)) \<and>
     V \<subseteq> (adj h)\<^sup>* `` {s} \<and> set queue \<subseteq> (adj h)\<^sup>* `` {s} \<and>
     s \<in> V \<union> set queue \<and>
     (\<forall>a\<in>V. \<forall>b. (a, b) \<in> adj h \<longrightarrow> b \<in> V \<union> set queue)"

text \<open>Connection by a path of edges of \<open>E\<close>, each taken in either direction.\<close>

definition sym_reach :: "('a \<times> 'a) set \<Rightarrow> 'a \<Rightarrow> 'a \<Rightarrow> bool" where
  "sym_reach E a b \<longleftrightarrow> (a, b) \<in> (E \<union> E\<inverse>)\<^sup>*"

text \<open>
  The keys at which a scan of \<open>ks\<close> finds no connection to an earlier representative
  (those in \<open>seen\<close>, then those found on the way): the keys from which the third loop
  starts a traversal.
\<close>

fun representatives :: "('a \<Rightarrow> 'a \<Rightarrow> bool) \<Rightarrow> 'a list \<Rightarrow> 'a list \<Rightarrow> 'a list" where
  "representatives conn seen [] = []"
| "representatives conn seen (k # ks) =
     (if \<exists>r\<in>set seen. conn r k then representatives conn seen ks
      else k # representatives conn (seen @ [k]) ks)"

text \<open>
  The invariant of the third loop: \<open>cnt\<close> is the number of representatives found, the
  shells of the nodes connected to the \<open>i\<close>-th representative carry the identifier
  \<open>i\<close>, and the shells of the other nodes carry \<open>-1\<close>.
\<close>

definition assign_inv ::
  "heap \<Rightarrow> shell_map \<Rightarrow> (addr \<times> addr) set \<Rightarrow> heap \<Rightarrow> addr list \<Rightarrow> int \<Rightarrow> bool" where
  "assign_inv h0 m E h seen cnt \<longleftrightarrow>
     shells_ok h0 m h \<and> linked m h E \<and> cnt = int (length seen) \<and>
     (\<forall>i<length seen. \<forall>k a. map_of m k = Some a \<longrightarrow> sym_reach E (seen ! i) k \<longrightarrow>
        g (h ! a) = Some (int i)) \<and>
     (\<forall>k a. map_of m k = Some a \<longrightarrow> (\<forall>r\<in>set seen. \<not> sym_reach E r k) \<longrightarrow>
        g (h ! a) = Some (- 1))"

text \<open>The shell of the key \<open>k\<close> carries the identifier \<open>i\<close>.\<close>

definition has_group :: "shell_map \<Rightarrow> heap \<Rightarrow> nat \<Rightarrow> addr \<Rightarrow> bool" where
  "has_group m h i k \<longleftrightarrow> (\<exists>a. map_of m k = Some a \<and> g (h ! a) = Some (int i))"

text \<open>
  The groups of a list of keys under a connection relation: one group per representative,
  in the order of the representatives, each holding the keys connected to it in the order
  of the list.
\<close>

definition component_groups :: "('a \<Rightarrow> 'a \<Rightarrow> bool) \<Rightarrow> 'a list \<Rightarrow> 'a list list" where
  "component_groups conn keys = map (\<lambda>r. filter (conn r) keys) (representatives conn [] keys)"

section \<open>Example graphs and callbacks\<close>

text \<open>
  A callback that only records the nodes it is called with, in call order, and never
  stops the expansion.
\<close>

definition record_visit :: "'a \<Rightarrow> 'a list \<Rightarrow> bool \<times> 'a list" where
  "record_visit c trace = (False, trace @ [c])"


text \<open>
  A callback run under a recorder: the state is paired with the list of the nodes the
  callback has been called with.
\<close>

definition traced :: "('a \<Rightarrow> 's \<Rightarrow> bool \<times> 's) \<Rightarrow> 'a \<Rightarrow> 's \<times> 'a list \<Rightarrow> bool \<times> 's \<times> 'a list" where
  "traced step c st = (case step c (fst st) of (stop, s') \<Rightarrow> (stop, s', snd st @ [c]))"



text \<open>The diamond \<open>0 \<rightarrow> 1, 0 \<rightarrow> 2, 1 \<rightarrow> 3, 2 \<rightarrow> 3\<close>.\<close>

definition diamond :: "nat \<Rightarrow> nat list" where
  "diamond n = (if n = 0 then [1, 2] else if n = 1 then [3] else if n = 2 then [3] else [])"

text \<open>A graph with a self-loop and a cycle: \<open>0 \<rightarrow> 0, 0 \<rightarrow> 1, 1 \<rightarrow> 2, 2 \<rightarrow> 0\<close>.\<close>

definition looped :: "nat \<Rightarrow> nat list" where
  "looped n = (if n = 0 then [0, 1] else if n = 1 then [2] else [0])"

text \<open>Four nodes with the edges \<open>0 \<rightarrow> 1\<close> and \<open>2 \<rightarrow> 3\<close>.\<close>

definition two_pairs :: heap where
  "two_pairs = [plain_node [1], plain_node [], plain_node [3], plain_node []]"

text \<open>Two nodes without edges.\<close>

definition two_single :: heap where
  "two_single = [plain_node [], plain_node []]"

text \<open>Three nodes with the edges \<open>0 \<rightarrow> 1, 0 \<rightarrow> 2, 1 \<rightarrow> 2\<close>.\<close>

definition fan :: heap where
  "fan = [plain_node [1, 2], plain_node [2], plain_node []]"

text \<open>A cycle \<open>0 \<rightarrow> 1 \<rightarrow> 2 \<rightarrow> 0\<close> and an isolated node \<open>3\<close>.\<close>

definition triangle :: heap where
  "triangle = [plain_node [1], plain_node [2], plain_node [0], plain_node []]"

section \<open>Unfolding the loops\<close>



lemma graphBfs_loop_Nil: "graphBfs_loop key step [] visitedNodes s = Some s"
  by (subst graphBfs_loop.simps) simp

lemma graphBfs_loop_Cons:
  "graphBfs_loop key step (c # rest) visitedNodes s =
     graphBfs_loop key step (fst (graphBfs_body key step c rest visitedNodes s))
       (fst (snd (graphBfs_body key step c rest visitedNodes s)))
       (snd (snd (graphBfs_body key step c rest visitedNodes s)))"
  by (subst graphBfs_loop.simps) (simp add: case_prod_beta)

section \<open>Termination of the graph traversal\<close>

lemma bfs_weight_pos: "0 < bfs_weight D R V e"
  by (simp add: bfs_weight_def)

lemma bfs_weight_mono:
  assumes "finite R" "V \<subseteq> V'"
  shows "bfs_weight D R V' e \<le> bfs_weight D R V e"
proof -
  have "card (R - insert e V') \<le> card (R - insert e V)"
    using assms by (intro card_mono) auto
  then show ?thesis
    unfolding bfs_weight_def by (intro power_increasing) auto
qed

lemma bfs_measure_mono:
  assumes "finite R" "V \<subseteq> V'"
  shows "bfs_measure D R V' queue \<le> bfs_measure D R V queue"
  unfolding bfs_measure_def
  by (induction queue) (simp_all add: add_mono bfs_weight_mono [OF assms])

lemma bfs_weight_child:
  assumes "finite R" "e \<in> R" "e \<notin> insert c V"
  shows "bfs_weight D R V c = Suc D * bfs_weight D R (insert c V) e"
proof -
  have "R - insert c V = insert e (R - insert e (insert c V))"
    using assms by auto
  moreover have "e \<notin> R - insert e (insert c V)" by simp
  moreover have "finite (R - insert e (insert c V))" using assms by simp
  ultimately have "card (R - insert c V) = Suc (card (R - insert e (insert c V)))"
    by (metis card_insert_disjoint)
  then show ?thesis by (simp add: bfs_weight_def)
qed

lemma bfs_measure_children:
  assumes "finite R" "set new \<subseteq> R" "set new \<inter> insert c V = {}" "length new \<le> D"
  shows "bfs_measure D R (insert c V) new < bfs_weight D R V c"
proof (cases new)
  case Nil
  then show ?thesis by (simp add: bfs_measure_def bfs_weight_pos)
next
  case (Cons e es)
  define K where "K = bfs_weight D R (insert c V) e"
  have e: "e \<in> R" "e \<notin> insert c V" using Cons assms by auto
  have c: "bfs_weight D R V c = Suc D * K"
    unfolding K_def by (rule bfs_weight_child [OF assms(1) e])
  have "bfs_weight D R (insert c V) x = K" if "x \<in> set new" for x
  proof -
    have "x \<in> R" "x \<notin> insert c V" using that assms(2,3) by auto
    from bfs_weight_child [OF assms(1) this, of D] c
    have "Suc D * bfs_weight D R (insert c V) x = Suc D * K" by simp
    then show ?thesis by (simp only: Suc_mult_cancel1)
  qed
  then have "map (bfs_weight D R (insert c V)) new = replicate (length new) K"
    by (simp add: map_replicate_const [symmetric] cong: map_cong)
  then have "bfs_measure D R (insert c V) new = length new * K"
    by (simp add: bfs_measure_def sum_list_replicate)
  also have "\<dots> \<le> D * K" using assms(4) by simp
  also have "\<dots> < Suc D * K" using bfs_weight_pos [of D R "insert c V" e] by (simp add: K_def)
  finally show ?thesis using c by simp
qed

lemma graphBfs_body_shape:
  assumes "graphBfs_body key step c rest V s = (q', V', s')"
  shows "V' = insert c V \<and> s' = snd (step c s) \<and>
         q' = rest @ (if fst (step c s) then [] else filter (\<lambda>n. n \<notin> insert c V) (key s' c))"
  using assms by (auto simp: graphBfs_body_def Let_def split: prod.splits if_splits)

lemma graphBfs_loop_total:
  fixes I :: "'a list \<Rightarrow> 'a set \<Rightarrow> 's \<Rightarrow> bool"
  assumes fin: "finite R"
    and step: "\<And>c rest V s q' V' s'. I (c # rest) V s \<Longrightarrow> set (c # rest) \<subseteq> R \<Longrightarrow>
        graphBfs_body key step c rest V s = (q', V', s') \<Longrightarrow>
        I q' V' s' \<and> set q' \<subseteq> R \<and> length q' \<le> length rest + D"
    and init: "I queue V s" "set queue \<subseteq> R"
  shows "\<exists>s'. graphBfs_loop key step queue V s = Some s' \<and> (\<exists>V'. I [] V' s')"
  using init
proof (induction "bfs_measure D R V queue" arbitrary: queue V s rule: less_induct)
  case less
  show ?case
  proof (cases queue)
    case Nil
    then show ?thesis using less.prems by (auto simp: graphBfs_loop_Nil)
  next
    case (Cons c rest)
    obtain q' V' s' where body: "graphBfs_body key step c rest V s = (q', V', s')"
      by (metis prod_cases3)
    from graphBfs_body_shape [OF body] obtain new where
      V': "V' = insert c V" and q': "q' = rest @ new" and new: "set new \<inter> insert c V = {}"
      by (auto split: if_splits)
    have st: "I q' V' s'" "set q' \<subseteq> R" "length q' \<le> length rest + D"
      using step [OF _ _ body] less.prems Cons by auto
    have "bfs_measure D R V' q' = bfs_measure D R V' rest + bfs_measure D R V' new"
      by (simp add: q' bfs_measure_def)
    also have "\<dots> < bfs_measure D R V rest + bfs_weight D R V c"
      using bfs_measure_mono [OF fin, of V V' D rest]
        bfs_measure_children [OF fin _ new, of D] st q' V'
      by (simp add: add_le_less_mono subset_insertI)
    also have "\<dots> = bfs_measure D R V queue" by (simp add: Cons bfs_measure_def)
    finally have "\<exists>s''. graphBfs_loop key step q' V' s' = Some s'' \<and> (\<exists>V''. I [] V'' s'')"
      using less.hyps st by blast
    then show ?thesis by (simp add: Cons graphBfs_loop_Cons body)
  qed
qed

text \<open>
  Claim C8. On a finite graph, cycles and self-loops included, \<open>graphBfs\<close> returns:
  for a finite set \<open>R\<close> of nodes that holds the root and every neighbour of its
  members, the loop reaches the empty queue, whatever the callback does to its state.
\<close>

theorem graphBfs_terminates:
  assumes "finite R" "root \<in> R" "\<forall>x\<in>R. set (nexts x) \<subseteq> R"
  shows "\<exists>s'. graphBfs (\<lambda>_. nexts) step root s = Some s'"
proof -
  define D where "D = Max ((\<lambda>x. length (nexts x)) ` R)"
  have D: "\<And>x. x \<in> R \<Longrightarrow> length (nexts x) \<le> D"
    unfolding D_def using assms(1) by (intro Max_ge) auto
  have body: "True \<and> set q' \<subseteq> R \<and> length q' \<le> length rest + D"
    if "True" and sub: "set (c # rest) \<subseteq> R"
      and body: "graphBfs_body (\<lambda>_. nexts) step c rest V s = (q', V', s')"
    for c rest V s q' V' s'
  proof -
    have c: "c \<in> R" using sub by simp
    have "length (filter (\<lambda>n. n \<notin> insert c V) (nexts c)) \<le> D"
      using D [OF c] length_filter_le [of _ "nexts c"] by (meson le_trans)
    then show ?thesis
      using graphBfs_body_shape [OF body] sub assms(3) c by auto
  qed
  have "\<exists>s'. graphBfs_loop (\<lambda>_. nexts) step [root] {} s = Some s' \<and> (\<exists>V'::'a set. True)"
  proof (rule graphBfs_loop_total [where I = "\<lambda>_ _ _. True" and R = R and D = D])
    show "finite R" by fact
    show "True" by simp
    show "set [root] \<subseteq> R" using assms(2) by simp
  qed (rule body)
  then show ?thesis by (simp add: graphBfs_def)
qed

theorem graphBfs_terminates_witness:
  "finite {0, 1, 2 :: nat} \<and> (0::nat) \<in> {0, 1, 2} \<and>
   (\<exists>s'. graphBfs (\<lambda>_. looped) record_visit 0 [] = Some s')"
proof -
  have h: "\<forall>x\<in>{0, 1, 2 :: nat}. set (looped x) \<subseteq> {0, 1, 2}"
    by (simp add: looped_def)
  from graphBfs_terminates [of "{0, 1, 2}" 0 looped record_visit "[]"] h
  show ?thesis by simp
qed

section \<open>The callback's result and the expansion\<close>







section \<open>How often a node is visited\<close>

text \<open>
  Claim C3 says that the callback is invoked at most once per node and that the group
  propagation revisits no assigned node. A node enters the visited set when it leaves the
  queue, so a node with two neighbours that are expanded before it is enqueued twice. On
  the diamond the traversal from node \<open>0\<close> calls the callback twice at node \<open>3\<close>.
  For the input \<open>fan\<close> the shells are the objects \<open>3, 4, 5\<close>, and the propagation
  from shell \<open>3\<close> assigns the identifier twice to shell \<open>5\<close>.
\<close>

theorem graphBfs_visits_twice:
  "graphBfs (\<lambda>_. diamond) record_visit 0 [] = Some [0, 1, 2, 3, 3] \<and>
   (case build_shell_graph [0, 1, 2] fan of
      Inl e \<Rightarrow> None
    | Inr (m, h2) \<Rightarrow>
        map_option snd
          (graphBfs (\<lambda>st. shell_key (fst st)) (traced (assign_step 3)) 3
             (h2[3 := (h2 ! 3)\<lparr>g := Some 0\<rparr>], []))) = Some [3, 4, 5, 5]"
proof
  show "graphBfs (\<lambda>_. diamond) record_visit 0 [] = Some [0, 1, 2, 3, 3]"
    by (simp add: graphBfs_def graphBfs_loop_Nil graphBfs_loop_Cons graphBfs_body_def
        record_visit_def diamond_def)
  show "(case build_shell_graph [0, 1, 2] fan of
      Inl e \<Rightarrow> None
    | Inr (m, h2) \<Rightarrow>
        map_option snd
          (graphBfs (\<lambda>st. shell_key (fst st)) (traced (assign_step 3)) 3
             (h2[3 := (h2 ! 3)\<lparr>g := Some 0\<rparr>], []))) = Some [3, 4, 5, 5]"
    by code_simp
qed

section \<open>The first loop: shell nodes and the map\<close>

lemma make_shells_heap:
  "make_shells nodes m0 h0 = (m, h1) \<Longrightarrow> h1 = h0 @ map (\<lambda>n. shell n [] (- 1)) nodes"
proof (induction nodes arbitrary: m0 h0)
  case Nil
  then show ?case by simp
next
  case (Cons x ns)
  from Cons.prems
  have "make_shells ns (AList.update x (length h0) m0)
          (h0 @ [\<lparr>nextNodes = [], val = Some x, g = Some (- 1)\<rparr>]) = (m, h1)"
    by (simp add: Let_def)
  from Cons.IH [OF this] show ?case by (simp add: shell_def)
qed

lemma remdups_append_member:
  "n \<in> set ys \<Longrightarrow> remdups (xs @ n # ys) = remdups (xs @ ys)"
  by (induction xs) auto

lemma make_shells_keys:
  "make_shells nodes m0 h0 = (m, h1) \<Longrightarrow>
   map fst m = rev (remdups (rev (map fst m0 @ nodes))) \<or> \<not> distinct (map fst m0)"
proof (induction nodes arbitrary: m0 h0)
  case Nil
  then show ?case by (auto simp: distinct_remdups_id)
next
  case (Cons n ns)
  let ?m1 = "AList.update n (length h0) m0"
  have ms: "make_shells ns ?m1 (h0 @ [\<lparr>nextNodes = [], val = Some n, g = Some (- 1)\<rparr>]) = (m, h1)"
    using Cons.prems by (simp add: Let_def)
  show ?case
  proof (cases "distinct (map fst m0)")
    case True
    then have d: "distinct (map fst ?m1)" by (rule distinct_update)
    from Cons.IH [OF ms] d have m: "map fst m = rev (remdups (rev (map fst ?m1 @ ns)))" by simp
    show ?thesis
    proof (cases "n \<in> set (map fst m0)")
      case True
      then have "remdups (rev ns @ n # rev (map fst m0)) = remdups (rev ns @ rev (map fst m0))"
        by (intro remdups_append_member) simp
      then show ?thesis using m True by (simp add: update_keys)
    next
      case False
      then show ?thesis using m by (simp add: update_keys)
    qed
  qed simp
qed

lemma make_shells_empty_keys:
  "make_shells nodes [] h0 = (m, h1) \<Longrightarrow> map fst m = first_occurrences nodes"
  using make_shells_keys [of nodes "[]" h0 m h1] by (simp add: first_occurrences_def)

lemma make_shells_lookup:
  "make_shells nodes m0 h0 = (m, h1) \<Longrightarrow> map_of m n = Some a \<Longrightarrow>
   map_of m0 n = Some a \<and> n \<notin> set nodes \<or>
   length h0 \<le> a \<and> a < length h1 \<and> h1 ! a = shell n [] (- 1) \<and> n \<in> set nodes"
proof (induction nodes arbitrary: m0 h0)
  case Nil
  then show ?case by simp
next
  case (Cons x ns)
  let ?sh = "\<lparr>nextNodes = [], val = Some x, g = Some (- 1)\<rparr>"
  let ?m1 = "AList.update x (length h0) m0"
  have ms: "make_shells ns ?m1 (h0 @ [?sh]) = (m, h1)"
    using Cons.prems by (simp add: Let_def)
  have h1: "h1 = h0 @ ?sh # map (\<lambda>n. shell n [] (- 1)) ns"
    using make_shells_heap [OF ms] by simp
  from Cons.IH [OF ms Cons.prems(2)] show ?case
  proof
    assume old: "map_of ?m1 n = Some a \<and> n \<notin> set ns"
    show ?thesis
    proof (cases "n = x")
      case True
      then have "a = length h0" using old by (simp add: update_conv')
      then show ?thesis using True h1 by (simp add: shell_def nth_append)
    next
      case False
      then show ?thesis using old by (simp add: update_conv')
    qed
  next
    assume "length (h0 @ [?sh]) \<le> a \<and> a < length h1 \<and> h1 ! a = shell n [] (- 1) \<and> n \<in> set ns"
    then show ?thesis by simp
  qed
qed

lemma first_occurrences_set [simp]: "set (first_occurrences xs) = set xs"
  by (simp add: first_occurrences_def)

lemma first_occurrences_distinct [simp]: "distinct (first_occurrences xs)"
  by (simp add: first_occurrences_def)

section \<open>The second loop: mirrored edges\<close>

lemma length_push_next [simp]: "length (push_next a b h) = length h"
  by (simp add: push_next_def)

lemma nth_push_next:
  "c < length h \<Longrightarrow>
   push_next a b h ! c = (if c = a then (h ! a)\<lparr>nextNodes := nextNodes (h ! a) @ [b]\<rparr> else h ! c)"
  by (simp add: push_next_def nth_list_update)

lemma take_push_next: "n \<le> a \<Longrightarrow> take n (push_next a b h) = take n h"
  by (simp add: push_next_def)

lemma shells_ok_inj:
  "shells_ok h0 m h \<Longrightarrow> map_of m x = Some c \<Longrightarrow> map_of m y = Some c \<Longrightarrow> x = y"
  unfolding shells_ok_def by (metis option.inject)

lemma shells_ok_push:
  assumes "shells_ok h0 m h" "length h0 \<le> a"
  shows "shells_ok h0 m (push_next a b h)"
  using assms unfolding shells_ok_def
  by (auto simp: take_push_next nth_push_next)

lemma unassigned_push:
  assumes "shells_ok h0 m h" "unassigned m h"
  shows "unassigned m (push_next a b h)"
  using assms unfolding shells_ok_def unassigned_def
  by (auto simp: nth_push_next)

lemma nexts_push:
  "c < length h \<Longrightarrow>
   set (nextNodes (push_next a b h ! c)) = set (nextNodes (h ! c)) \<union> (if c = a then {b} else {})"
  by (auto simp: nth_push_next)

lemma linked_step:
  assumes ok: "shells_ok h0 m h" and li: "linked m h Ed"
    and a: "map_of m n = Some a" and b: "map_of m v = Some b"
  shows "linked m (push_next b a (push_next a b h)) (insert (n, v) Ed)"
  unfolding linked_def
proof (intro allI impI)
  fix n' a' assume a': "map_of m n' = Some a'"
  have lt: "a' < length h" using ok a' by (simp add: shells_ok_def)
  have eqa: "a' = a \<longleftrightarrow> n' = n" using shells_ok_inj [OF ok, of n' a' n] a a' by auto
  have eqb: "a' = b \<longleftrightarrow> n' = v" using shells_ok_inj [OF ok, of n' a' v] b a' by auto
  have old: "set (nextNodes (h ! a')) =
      {b. \<exists>v. map_of m v = Some b \<and> ((n', v) \<in> Ed \<or> (v, n') \<in> Ed)}"
    using li a' by (simp add: linked_def)
  have "set (nextNodes (push_next b a (push_next a b h) ! a')) =
      set (nextNodes (h ! a')) \<union> (if a' = a then {b} else {}) \<union> (if a' = b then {a} else {})"
    using lt by (simp add: nexts_push)
  also have "\<dots> = {x. \<exists>w. map_of m w = Some x \<and> ((n', w) \<in> Ed \<or> (w, n') \<in> Ed)}
      \<union> {x. \<exists>w. map_of m w = Some x \<and> n' = n \<and> w = v}
      \<union> {x. \<exists>w. map_of m w = Some x \<and> w = n \<and> n' = v}"
    unfolding old eqa eqb using a b by simp
  also have "\<dots> = {x. \<exists>w. map_of m w = Some x \<and> ((n', w) \<in> insert (n, v) Ed \<or> (w, n') \<in> insert (n, v) Ed)}"
    by blast
  finally show "set (nextNodes (push_next b a (push_next a b h) ! a')) =
      {ba. \<exists>va. map_of m va = Some ba \<and> ((n', va) \<in> insert (n, v) Ed \<or> (va, n') \<in> insert (n, v) Ed)}" .
qed

lemma link_inv_step:
  assumes "link_inv h0 m h Ed" "map_of m n = Some a" "map_of m v = Some b"
  shows "link_inv h0 m (push_next b a (push_next a b h)) (insert (n, v) Ed)"
proof -
  have ok: "shells_ok h0 m h" and un: "unassigned m h" and li: "linked m h Ed"
    using assms(1) by (simp_all add: link_inv_def)
  have la: "length h0 \<le> a" and lb: "length h0 \<le> b"
    using ok assms(2,3) by (auto simp: shells_ok_def)
  have ok1: "shells_ok h0 m (push_next a b h)" by (rule shells_ok_push [OF ok la])
  have ok2: "shells_ok h0 m (push_next b a (push_next a b h))" by (rule shells_ok_push [OF ok1 lb])
  have un2: "unassigned m (push_next b a (push_next a b h))"
    by (intro unassigned_push [OF ok1] unassigned_push [OF ok] un)
  show ?thesis
    unfolding link_inv_def using ok2 un2 linked_step [OF ok li assms(2,3)] by simp
qed

lemma link_nexts_inv:
  assumes "link_inv h0 m h Ed" "map_of m n = Some a" "set vs \<subseteq> dom (map_of m)"
  shows "\<exists>h'. link_nexts m a vs h = Inr h' \<and> link_inv h0 m h' (Ed \<union> {n} \<times> set vs)"
  using assms
proof (induction vs arbitrary: h Ed)
  case Nil
  then show ?case by simp
next
  case (Cons v vs)
  then obtain b where b: "map_of m v = Some b" by auto
  have "link_inv h0 m (push_next b a (push_next a b h)) (insert (n, v) Ed)"
    by (rule link_inv_step [OF Cons.prems(1,2) b])
  from Cons.IH [OF this Cons.prems(2)] Cons.prems(3)
  obtain h' where "link_nexts m a vs (push_next b a (push_next a b h)) = Inr h'"
    and "link_inv h0 m h' (insert (n, v) Ed \<union> {n} \<times> set vs)" by auto
  moreover have "insert (n, v) Ed \<union> {n} \<times> set vs = Ed \<union> {n} \<times> set (v # vs)" by auto
  ultimately show ?case using b by simp
qed

lemma link_nodes_inv:
  assumes "link_inv h0 m h Ed"
    and "\<forall>u\<in>set ns. u \<in> dom (map_of m) \<and> u < length h0 \<and> set (nextNodes (h0 ! u)) \<subseteq> dom (map_of m)"
  shows "\<exists>h'. link_nodes m ns h = Inr h' \<and>
           link_inv h0 m h' (Ed \<union> {(u, v). u \<in> set ns \<and> v \<in> set (nextNodes (h0 ! u))})"
  using assms
proof (induction ns arbitrary: h Ed)
  case Nil
  then show ?case by simp
next
  case (Cons u ns)
  obtain a where a: "map_of m u = Some a" using Cons.prems(2) by auto
  have u: "u < length h0" and sub: "set (nextNodes (h0 ! u)) \<subseteq> dom (map_of m)"
    using Cons.prems(2) by auto
  have "take (length h0) h ! u = h ! u" using u by simp
  moreover have "take (length h0) h = h0"
    using Cons.prems(1) by (simp add: link_inv_def shells_ok_def)
  ultimately have hu: "h ! u = h0 ! u" by simp
  from link_nexts_inv [OF Cons.prems(1) a sub]
  obtain h1 where h1: "link_nexts m a (nextNodes (h0 ! u)) h = Inr h1"
    and inv1: "link_inv h0 m h1 (Ed \<union> {u} \<times> set (nextNodes (h0 ! u)))" by auto
  from Cons.IH [OF inv1] Cons.prems(2)
  obtain h' where h': "link_nodes m ns h1 = Inr h'"
    and inv': "link_inv h0 m h'
      (Ed \<union> {u} \<times> set (nextNodes (h0 ! u)) \<union> {(u, v). u \<in> set ns \<and> v \<in> set (nextNodes (h0 ! u))})"
    by auto
  have "Ed \<union> {u} \<times> set (nextNodes (h0 ! u)) \<union> {(u, v). u \<in> set ns \<and> v \<in> set (nextNodes (h0 ! u))}
      = Ed \<union> {(x, v). x \<in> set (u # ns) \<and> v \<in> set (nextNodes (h0 ! x))}" by auto
  then show ?case using a hu h1 h' inv' by simp
qed

lemma build_shell_graph_inv:
  assumes "well_formed h nodes"
  shows "\<exists>m h2. build_shell_graph nodes h = Inr (m, h2) \<and> map fst m = first_occurrences nodes \<and>
           link_inv h m h2 (edges h nodes)"
proof -
  obtain m h1 where ms: "make_shells nodes [] h = (m, h1)" by (metis surj_pair)
  have keys: "map fst m = first_occurrences nodes" by (rule make_shells_empty_keys [OF ms])
  have dom: "dom (map_of m) = set nodes"
    using keys by (metis dom_map_of_conv_image_fst first_occurrences_set set_map)
  have h1: "h1 = h @ map (\<lambda>n. shell n [] (- 1)) nodes" by (rule make_shells_heap [OF ms])
  have look: "length h \<le> a \<and> a < length h1 \<and> h1 ! a = shell n [] (- 1)" if "map_of m n = Some a" for n a
    using make_shells_lookup [OF ms that] by simp
  have "link_inv h m h1 {}"
    unfolding link_inv_def shells_ok_def linked_def unassigned_def
    using h1 look by (auto simp: shell_def)
  from link_nodes_inv [OF this, of nodes] assms dom
  obtain h2 where "link_nodes m nodes h1 = Inr h2"
    and "link_inv h m h2 ({} \<union> {(u, v). u \<in> set nodes \<and> v \<in> set (nextNodes (h ! u))})"
    unfolding well_formed_def by auto
  then show ?thesis using ms keys by (simp add: build_shell_graph_def edges_def)
qed

text \<open>
  Claim C4. For a well-formed input the construction phase returns, and for every edge
  \<open>(u, v)\<close> of the input the shell of \<open>v\<close> is among the neighbours of the shell of \<open>u\<close>
  and the shell of \<open>u\<close> is among the neighbours of the shell of \<open>v\<close>.
\<close>

theorem shell_graph_mirrors_edges:
  assumes "well_formed h nodes"
  shows "\<exists>m h2. build_shell_graph nodes h = Inr (m, h2) \<and>
           (\<forall>u v. (u, v) \<in> edges h nodes \<longrightarrow>
              (\<exists>su sv. map_of m u = Some su \<and> map_of m v = Some sv \<and>
                 val (h2 ! su) = Some u \<and> val (h2 ! sv) = Some v \<and>
                 sv \<in> set (nextNodes (h2 ! su)) \<and> su \<in> set (nextNodes (h2 ! sv))))"
proof -
  from build_shell_graph_inv [OF assms]
  obtain m h2 where b: "build_shell_graph nodes h = Inr (m, h2)"
    and keys: "map fst m = first_occurrences nodes"
    and inv: "link_inv h m h2 (edges h nodes)" by auto
  have dom: "dom (map_of m) = set nodes"
    using keys by (metis dom_map_of_conv_image_fst first_occurrences_set set_map)
  have "\<exists>su sv. map_of m u = Some su \<and> map_of m v = Some sv \<and>
          val (h2 ! su) = Some u \<and> val (h2 ! sv) = Some v \<and>
          sv \<in> set (nextNodes (h2 ! su)) \<and> su \<in> set (nextNodes (h2 ! sv))"
    if e: "(u, v) \<in> edges h nodes" for u v
  proof -
    have "u \<in> set nodes" "v \<in> set nodes"
      using e assms by (auto simp: edges_def well_formed_def)
    then obtain su sv where su: "map_of m u = Some su" and sv: "map_of m v = Some sv"
      using dom by blast
    have "sv \<in> set (nextNodes (h2 ! su))" "su \<in> set (nextNodes (h2 ! sv))"
      using inv su sv e unfolding link_inv_def linked_def by blast+
    moreover have "val (h2 ! su) = Some u" "val (h2 ! sv) = Some v"
      using inv su sv unfolding link_inv_def shells_ok_def by blast+
    ultimately show ?thesis using su sv by blast
  qed
  then show ?thesis using b by blast
qed

theorem shell_graph_mirrors_edges_witness:
  "\<exists>m h2. build_shell_graph [0, 1, 2, 3] two_pairs = Inr (m, h2) \<and>
     (\<exists>su sv. map_of m 0 = Some su \<and> map_of m 1 = Some sv \<and>
        val (h2 ! su) = Some 0 \<and> val (h2 ! sv) = Some 1 \<and>
        sv \<in> set (nextNodes (h2 ! su)) \<and> su \<in> set (nextNodes (h2 ! sv)))"
proof -
  have wf: "well_formed two_pairs [0, 1, 2, 3]"
    by (simp add: well_formed_def two_pairs_def plain_node_def)
  have e: "(0, 1) \<in> edges two_pairs [0, 1, 2, 3]"
    by (simp add: edges_def two_pairs_def plain_node_def)
  from shell_graph_mirrors_edges [OF wf] e show ?thesis by blast
qed

section \<open>The third loop: one traversal\<close>

lemma bfs_inv_step:
  assumes inv: "bfs_inv h s k (c # rest) V hc"
    and sk: "g (h ! s) = Some k" and s: "s < length h"
    and reach: "(adj h)\<^sup>* `` {s} \<subseteq> {..<length h}"
    and body: "graphBfs_body shell_key (assign_step s) c rest V hc = (q', V', hc')"
  shows "bfs_inv h s k q' V' hc'"
    and "q' = rest @ filter (\<lambda>n. n \<notin> insert c V) (nextNodes (h ! c))"
proof -
  have c: "(s, c) \<in> (adj h)\<^sup>*" and clt: "c < length h"
    using inv reach by (auto simp: bfs_inv_def)
  have len: "length hc = length h" using inv by (simp add: bfs_inv_def)
  have hc: "\<And>a. a < length h \<Longrightarrow> hc ! a = (if a \<in> V then (h ! a)\<lparr>g := Some k\<rparr> else h ! a)"
    using inv by (simp add: bfs_inv_def)
  have gs: "g (hc ! s) = Some k" using hc [OF s] sk by simp
  have V': "V' = insert c V" and hc': "hc' = hc[c := (hc ! c)\<lparr>g := Some k\<rparr>]"
    and q'0: "q' = rest @ filter (\<lambda>n. n \<notin> insert c V) (nextNodes (hc' ! c))"
    using body gs by (auto simp: graphBfs_body_def assign_step_def shell_key_def Let_def)
  have nc: "nextNodes (hc' ! c) = nextNodes (h ! c)"
    using hc [OF clt] clt len by (simp add: hc')
  show q': "q' = rest @ filter (\<lambda>n. n \<notin> insert c V) (nextNodes (h ! c))"
    using q'0 nc by simp
  have 1: "length hc' = length h" using len by (simp add: hc')
  have 2: "hc' ! a = (if a \<in> V' then (h ! a)\<lparr>g := Some k\<rparr> else h ! a)" if "a < length h" for a
    using hc [OF that] hc [OF clt] that len clt by (auto simp: hc' V' nth_list_update)
  have 3: "V' \<subseteq> (adj h)\<^sup>* `` {s}" using inv c by (auto simp: V' bfs_inv_def)
  have 4: "set q' \<subseteq> (adj h)\<^sup>* `` {s}"
  proof -
    have "b \<in> (adj h)\<^sup>* `` {s}" if "b \<in> set (nextNodes (h ! c))" for b
      using c that by (auto simp: adj_def intro: rtrancl_into_rtrancl)
    then show ?thesis using inv by (auto simp: q' bfs_inv_def)
  qed
  have 5: "s \<in> V' \<union> set q'" using inv by (auto simp: V' q' bfs_inv_def)
  have 6: "b \<in> V' \<union> set q'" if "a \<in> V'" "(a, b) \<in> adj h" for a b
  proof (cases "a = c")
    case True
    then show ?thesis using that by (auto simp: V' q' adj_def)
  next
    case False
    then have "b \<in> V \<union> set (c # rest)" using that inv by (auto simp: V' bfs_inv_def)
    then show ?thesis by (auto simp: V' q')
  qed
  show "bfs_inv h s k q' V' hc'"
    unfolding bfs_inv_def using 1 2 3 4 5 6 by blast
qed

lemma bfs_inv_final:
  assumes "bfs_inv h s k [] V hc"
  shows "length hc = length h"
    and "\<forall>a<length h. hc ! a = (if (s, a) \<in> (adj h)\<^sup>* then (h ! a)\<lparr>g := Some k\<rparr> else h ! a)"
proof -
  have sV: "s \<in> V" and cl: "\<And>a b. a \<in> V \<Longrightarrow> (a, b) \<in> adj h \<Longrightarrow> b \<in> V"
    and sub: "V \<subseteq> (adj h)\<^sup>* `` {s}"
    using assms by (auto simp: bfs_inv_def)
  have "a \<in> V" if "(s, a) \<in> (adj h)\<^sup>*" for a
    using that by (induction rule: rtrancl_induct) (auto intro: sV cl)
  then have "V = {a. (s, a) \<in> (adj h)\<^sup>*}" using sub by auto
  then show "\<forall>a<length h. hc ! a = (if (s, a) \<in> (adj h)\<^sup>* then (h ! a)\<lparr>g := Some k\<rparr> else h ! a)"
    using assms by (simp add: bfs_inv_def)
  show "length hc = length h" using assms by (simp add: bfs_inv_def)
qed

lemma bfs_assign:
  assumes sk: "g (h ! s) = Some k" and s: "s < length h"
    and reach: "(adj h)\<^sup>* `` {s} \<subseteq> {..<length h}"
  shows "\<exists>h'. graphBfs shell_key (assign_step s) s h = Some h' \<and> length h' = length h \<and>
           (\<forall>a<length h. h' ! a = (if (s, a) \<in> (adj h)\<^sup>* then (h ! a)\<lparr>g := Some k\<rparr> else h ! a))"
proof -
  define R where "R = (adj h)\<^sup>* `` {s}"
  define D where "D = sum_list (map (\<lambda>ob. length (nextNodes ob)) h)"
  have fin: "finite R" using reach by (auto simp: R_def intro: finite_subset)
  have D: "length (nextNodes (h ! a)) \<le> D" if "a < length h" for a
  proof -
    have "h ! a \<in> set h" using that by simp
    then have "length (nextNodes (h ! a)) \<in> set (map (\<lambda>ob. length (nextNodes ob)) h)"
      by (simp add: image_iff) blast
    then show ?thesis unfolding D_def by (simp only: member_le_sum_list)
  qed
  have step: "bfs_inv h s k q' V' hc' \<and> set q' \<subseteq> R \<and> length q' \<le> length rest + D"
    if inv: "bfs_inv h s k (c # rest) V hc" and "set (c # rest) \<subseteq> R"
      and body: "graphBfs_body shell_key (assign_step s) c rest V hc = (q', V', hc')"
    for c rest V hc q' V' hc'
  proof -
    note st = bfs_inv_step [OF inv sk s reach body]
    have "c < length h" using that(2) reach by (auto simp: R_def)
    then have "length (filter (\<lambda>n. n \<notin> insert c V) (nextNodes (h ! c))) \<le> D"
      using D [of c] length_filter_le [of _ "nextNodes (h ! c)"] by (meson le_trans)
    then show ?thesis using st by (simp add: R_def bfs_inv_def)
  qed
  have init: "bfs_inv h s k [s] {} h" by (simp add: bfs_inv_def)
  have "\<exists>h'. graphBfs_loop shell_key (assign_step s) [s] {} h = Some h' \<and> (\<exists>V'. bfs_inv h s k [] V' h')"
  proof (rule graphBfs_loop_total [where I = "bfs_inv h s k" and R = R and D = D])
    show "finite R" by fact
    show "bfs_inv h s k [s] {} h" by fact
    show "set [s] \<subseteq> R" by (simp add: R_def)
  qed (rule step)
  then show ?thesis using bfs_inv_final by (fastforce simp: graphBfs_def)
qed

section \<open>The third loop: group identifiers\<close>

lemma sym_reach_refl [simp]: "sym_reach E a a"
  by (simp add: sym_reach_def)

lemma sym_reach_sym: "sym_reach E a b \<Longrightarrow> sym_reach E b a"
proof -
  have "sym ((E \<union> E\<inverse>)\<^sup>*)" by (intro sym_rtrancl sym_Un_converse)
  then show "sym_reach E a b \<Longrightarrow> sym_reach E b a" by (auto simp: sym_reach_def dest: symD)
qed

lemma sym_reach_trans: "sym_reach E a b \<Longrightarrow> sym_reach E b c \<Longrightarrow> sym_reach E a c"
  by (auto simp: sym_reach_def)

lemma reach_shell:
  assumes ok: "shells_ok h0 m h" and li: "linked m h E"
    and E: "E \<subseteq> dom (map_of m) \<times> dom (map_of m)" and a: "map_of m n = Some a"
  shows "(a, b) \<in> (adj h)\<^sup>* \<longleftrightarrow> (\<exists>v. map_of m v = Some b \<and> sym_reach E n v)"
proof
  assume "(a, b) \<in> (adj h)\<^sup>*"
  then show "\<exists>v. map_of m v = Some b \<and> sym_reach E n v"
  proof (induction rule: rtrancl_induct)
    case base
    then show ?case using a by auto
  next
    case (step b c)
    then obtain v where v: "map_of m v = Some b" and nv: "sym_reach E n v" by auto
    have "c \<in> set (nextNodes (h ! b))" using step.hyps(2) by (simp add: adj_def)
    then obtain w where w: "map_of m w = Some c" and "(v, w) \<in> E \<or> (w, v) \<in> E"
      using li v unfolding linked_def by blast
    then have "(v, w) \<in> E \<union> E\<inverse>" by auto
    then have "sym_reach E n w"
      using nv unfolding sym_reach_def by (rule rtrancl_into_rtrancl [rotated])
    then show ?case using w by blast
  qed
next
  assume "\<exists>v. map_of m v = Some b \<and> sym_reach E n v"
  then obtain v where v: "map_of m v = Some b" and "(n, v) \<in> (E \<union> E\<inverse>)\<^sup>*"
    by (auto simp: sym_reach_def)
  from this(2) v show "(a, b) \<in> (adj h)\<^sup>*"
  proof (induction arbitrary: b rule: rtrancl_induct)
    case base
    then show ?case using a by simp
  next
    case (step v w)
    have "v \<in> dom (map_of m)" using step.hyps(2) E by auto
    then obtain bv where bv: "map_of m v = Some bv" by auto
    have "b \<in> set (nextNodes (h ! bv))"
      using li bv step.prems step.hyps(2) unfolding linked_def by blast
    then have "(bv, b) \<in> adj h" by (simp add: adj_def)
    then show ?case using step.IH [OF bv] by (rule rtrancl_into_rtrancl [rotated])
  qed
qed

lemma assign_component:
  assumes ok: "shells_ok h0 m h" and li: "linked m h E"
    and E: "E \<subseteq> dom (map_of m) \<times> dom (map_of m)" and a: "map_of m k = Some a"
  shows "\<exists>h'. graphBfs shell_key (assign_step a) a (h[a := (h ! a)\<lparr>g := Some c\<rparr>]) = Some h' \<and>
           shells_ok h0 m h' \<and> linked m h' E \<and>
           (\<forall>v b. map_of m v = Some b \<longrightarrow>
              g (h' ! b) = (if sym_reach E k v then Some c else g (h ! b)))"
proof -
  let ?hs = "h[a := (h ! a)\<lparr>g := Some c\<rparr>]"
  have alt: "a < length h" and al0: "length h0 \<le> a" using ok a by (auto simp: shells_ok_def)
  have nx: "nextNodes (?hs ! b) = nextNodes (h ! b)" for b
    using alt by (cases "b = a") simp_all
  have adj: "adj ?hs = adj h" by (simp add: adj_def nx)
  have vs: "val (?hs ! b) = val (h ! b)" for b
    using alt by (cases "b = a") simp_all
  have oks: "shells_ok h0 m ?hs"
    using ok al0 unfolding shells_ok_def by (simp add: vs)
  have lis: "linked m ?hs E" using li unfolding linked_def by (simp add: nx)
  have reach: "(adj ?hs)\<^sup>* `` {a} \<subseteq> {..<length ?hs}"
  proof
    fix b assume "b \<in> (adj ?hs)\<^sup>* `` {a}"
    then have "(a, b) \<in> (adj ?hs)\<^sup>*" by simp
    then obtain v where "map_of m v = Some b" using reach_shell [OF oks lis E a, of b] by blast
    then have "b < length h" using ok unfolding shells_ok_def by blast
    then show "b \<in> {..<length ?hs}" by simp
  qed
  from bfs_assign [of ?hs a c, OF _ _ reach] alt
  obtain h' where bfs: "graphBfs shell_key (assign_step a) a ?hs = Some h'"
    and len: "length h' = length h"
    and pt: "\<And>b. b < length h \<Longrightarrow>
        h' ! b = (if (a, b) \<in> (adj h)\<^sup>* then (?hs ! b)\<lparr>g := Some c\<rparr> else ?hs ! b)"
    by (auto simp: adj)
  have far: "h' ! b = h ! b" if "b < length h" "(a, b) \<notin> (adj h)\<^sup>*" for b
  proof -
    have "b \<noteq> a" using that(2) by auto
    then show ?thesis using pt [OF that(1)] that(2) by simp
  qed
  have near: "h' ! b = (h ! b)\<lparr>g := Some c\<rparr>" if "b < length h" "(a, b) \<in> (adj h)\<^sup>*" for b
    using pt [OF that(1)] that by (cases "b = a") simp_all
  have bounds: "length h0 \<le> b \<and> b < length h \<and> val (h ! b) = Some v" if "map_of m v = Some b" for v b
    using ok that unfolding shells_ok_def by blast
  have low: "(a, b) \<notin> (adj h)\<^sup>*" if "b < length h0" for b
  proof
    assume "(a, b) \<in> (adj h)\<^sup>*"
    then obtain v where "map_of m v = Some b" using reach_shell [OF ok li E a, of b] by blast
    from bounds [OF this] that show False by simp
  qed
  have l0: "length h0 \<le> length h" and t0: "take (length h0) h = h0"
    using ok unfolding shells_ok_def by blast+
  have tk: "take (length h0) h' = take (length h0) h"
  proof (rule nth_equalityI)
    show "length (take (length h0) h') = length (take (length h0) h)" using len by simp
  next
    fix i assume "i < length (take (length h0) h')"
    then have i: "i < length h0" "i < length h" using len l0 by simp_all
    then show "take (length h0) h' ! i = take (length h0) h ! i"
      using far [OF i(2) low [OF i(1)]] by simp
  qed
  have vl: "val (h' ! b) = val (h ! b)" and nn: "nextNodes (h' ! b) = nextNodes (h ! b)"
    if "b < length h" for b
    using far [OF that] near [OF that] by (cases "(a, b) \<in> (adj h)\<^sup>*"; simp)+
  have ok': "shells_ok h0 m h'"
    unfolding shells_ok_def
  proof (intro conjI allI impI)
    show "length h0 \<le> length h'" using l0 len by simp
    show "take (length h0) h' = h0" using tk t0 by simp
  next
    fix n b assume nb: "map_of m n = Some b"
    show "length h0 \<le> b" "b < length h'" "val (h' ! b) = Some n"
      using bounds [OF nb] len vl [of b] by simp_all
  qed
  have li': "linked m h' E"
    unfolding linked_def
  proof (intro allI impI)
    fix n b assume nb: "map_of m n = Some b"
    have "nextNodes (h' ! b) = nextNodes (h ! b)" using bounds [OF nb] nn by simp
    then show "set (nextNodes (h' ! b)) =
        {x. \<exists>v. map_of m v = Some x \<and> ((n, v) \<in> E \<or> (v, n) \<in> E)}"
      using li nb unfolding linked_def by simp
  qed
  have "g (h' ! b) = (if sym_reach E k v then Some c else g (h ! b))" if v: "map_of m v = Some b" for v b
  proof -
    have blt: "b < length h" using bounds [OF v] by simp
    have "(a, b) \<in> (adj h)\<^sup>* \<longleftrightarrow> sym_reach E k v"
      using reach_shell [OF ok li E a, of b] v shells_ok_inj [OF ok, of _ b v] by blast
    then show ?thesis using far [OF blt] near [OF blt] by (cases "sym_reach E k v") simp_all
  qed
  then show ?thesis using bfs ok' li' by blast
qed

lemma assign_groups_inv:
  assumes "assign_inv h0 m E h seen cnt" "set todo \<subseteq> dom (map_of m)"
    and E: "E \<subseteq> dom (map_of m) \<times> dom (map_of m)"
  shows "\<exists>cnt' h'. assign_groups m todo cnt h = Some (Inr (cnt', h')) \<and>
           assign_inv h0 m E h' (seen @ representatives (sym_reach E) seen todo) cnt'"
  using assms(1,2)
proof (induction todo arbitrary: h seen cnt)
  case Nil
  then show ?case by simp
next
  case (Cons k todo)
  obtain a where a: "map_of m k = Some a" using Cons.prems(2) by auto
  have ok: "shells_ok h0 m h" and li: "linked m h E" and cnt: "cnt = int (length seen)"
    and in_seen: "\<And>i v b. i < length seen \<Longrightarrow> map_of m v = Some b \<Longrightarrow>
        sym_reach E (seen ! i) v \<Longrightarrow> g (h ! b) = Some (int i)"
    and out_seen: "\<And>v b. map_of m v = Some b \<Longrightarrow> (\<forall>r\<in>set seen. \<not> sym_reach E r v) \<Longrightarrow>
        g (h ! b) = Some (- 1)"
    using Cons.prems(1) unfolding assign_inv_def by blast+
  have todo: "set todo \<subseteq> dom (map_of m)" using Cons.prems(2) by simp
  show ?case
  proof (cases "g (h ! a) = Some (- 1)")
    case True
    have fresh: "\<not> sym_reach E r k" if "r \<in> set seen" for r
    proof
      assume r: "sym_reach E r k"
      from that obtain i where i: "i < length seen" "seen ! i = r"
        unfolding in_set_conv_nth by blast
      have "g (h ! a) = Some (int i)" using in_seen [of i k a] i a r by simp
      then show False using True by simp
    qed
    from assign_component [OF ok li E a, of cnt]
    obtain h' where H: "graphBfs shell_key (assign_step a) a (h[a := (h ! a)\<lparr>g := Some cnt\<rparr>]) = Some h' \<and>
        shells_ok h0 m h' \<and> linked m h' E \<and>
        (\<forall>v b. map_of m v = Some b \<longrightarrow>
           g (h' ! b) = (if sym_reach E k v then Some cnt else g (h ! b)))" ..
    have bfs: "graphBfs shell_key (assign_step a) a (h[a := (h ! a)\<lparr>g := Some cnt\<rparr>]) = Some h'"
      and ok': "shells_ok h0 m h'" and li': "linked m h' E"
      using H by simp_all
    have g': "g (h' ! b) = (if sym_reach E k v then Some cnt else g (h ! b))"
      if "map_of m v = Some b" for v b
      using H that by simp
    have inv': "assign_inv h0 m E h' (seen @ [k]) (cnt + 1)"
      unfolding assign_inv_def
    proof (intro conjI allI impI)
      show "shells_ok h0 m h'" "linked m h' E" by fact+
      show "cnt + 1 = int (length (seen @ [k]))" using cnt by simp
    next
      fix i v b
      assume i: "i < length (seen @ [k])" and v: "map_of m v = Some b"
        and r: "sym_reach E ((seen @ [k]) ! i) v"
      show "g (h' ! b) = Some (int i)"
      proof (cases "i < length seen")
        case True
        then have r': "sym_reach E (seen ! i) v" using r by (simp add: nth_append)
        have "\<not> sym_reach E k v"
        proof
          assume "sym_reach E k v"
          then have "sym_reach E (seen ! i) k"
            using r' sym_reach_sym [of E k v] sym_reach_trans [of E "seen ! i" v k] by blast
          then show False using fresh [of "seen ! i"] True by simp
        qed
        then show ?thesis using g' [OF v] in_seen [OF True v r'] by simp
      next
        case False
        then have "i = length seen" using i by simp
        then show ?thesis using g' [OF v] r cnt by (simp add: nth_append)
      qed
    next
      fix v b
      assume v: "map_of m v = Some b" and "\<forall>r\<in>set (seen @ [k]). \<not> sym_reach E r v"
      then show "g (h' ! b) = Some (- 1)" using g' [OF v] out_seen [OF v] by simp
    qed
    from Cons.IH [OF inv' todo]
    obtain cnt' h'' where "assign_groups m todo (cnt + 1) h' = Some (Inr (cnt', h'')) \<and>
        assign_inv h0 m E h'' ((seen @ [k]) @ representatives (sym_reach E) (seen @ [k]) todo) cnt'"
      by (elim exE)
    moreover have "\<not> (\<exists>r\<in>set seen. sym_reach E r k)" using fresh by blast
    ultimately show ?thesis using a True bfs by simp
  next
    case False
    then have ex: "\<exists>r\<in>set seen. sym_reach E r k" using out_seen [OF a] by blast
    from Cons.IH [OF Cons.prems(1) todo] show ?thesis using a False ex by simp
  qed
qed

section \<open>The fourth loop and the whole function\<close>

lemma fill_groups_result:
  assumes "\<forall>k\<in>set ks. \<exists>i<length grp. has_group m h i k"
  shows "fill_groups m ks h grp =
           Inr (map (\<lambda>i. grp ! i @ filter (has_group m h i) ks) [0..<length grp])"
  using assms
proof (induction ks arbitrary: grp)
  case Nil
  then show ?case by (simp add: map_nth)
next
  case (Cons k ks)
  then obtain i a where i: "i < length grp" and a: "map_of m k = Some a"
    and gi: "g (h ! a) = Some (int i)"
    by (auto simp: has_group_def)
  let ?grp = "grp[i := grp ! i @ [k]]"
  have hk: "has_group m h j k \<longleftrightarrow> j = i" for j
    using a gi by (auto simp: has_group_def)
  have "\<forall>k\<in>set ks. \<exists>i<length ?grp. has_group m h i k" using Cons.prems by simp
  from Cons.IH [OF this]
  have "fill_groups m ks h ?grp =
      Inr (map (\<lambda>j. ?grp ! j @ filter (has_group m h j) ks) [0..<length grp])" by simp
  moreover have "map (\<lambda>j. ?grp ! j @ filter (has_group m h j) ks) [0..<length grp] =
      map (\<lambda>j. grp ! j @ filter (has_group m h j) (k # ks)) [0..<length grp]"
    using i by (intro map_cong refl) (simp add: hk nth_list_update)
  ultimately show ?case using a gi i by simp
qed

lemma representatives_cover:
  assumes "\<And>x. conn x x" "k \<in> set ks"
  shows "\<exists>r\<in>set (seen @ representatives conn seen ks). conn r k"
  using assms(2)
proof (induction ks arbitrary: seen)
  case Nil
  then show ?case by simp
next
  case (Cons x ks)
  show ?case
  proof (cases "\<exists>r\<in>set seen. conn r x")
    case True
    then show ?thesis using Cons.prems Cons.IH [of seen] by auto
  next
    case False
    show ?thesis
    proof (cases "k = x")
      case True
      then show ?thesis using False assms(1) by auto
    next
      case neq: False
      then have "k \<in> set ks" using Cons.prems by simp
      from Cons.IH [OF this, of "seen @ [x]"] show ?thesis using False by simp
    qed
  qed
qed

lemma map_nth_fun: "map (\<lambda>i. f (xs ! i)) [0..<length xs] = map f xs"
proof -
  have "map f (map ((!) xs) [0..<length xs]) = map f xs" by (simp only: map_nth)
  then show ?thesis by (simp only: map_map comp_def)
qed

lemma connected_sym_reach: "connected h nodes = sym_reach (edges h nodes)"
  by (simp add: fun_eq_iff connected_def sym_reach_def)

lemma dom_shell_map: "map fst m = first_occurrences nodes \<Longrightarrow> dom (map_of m) = set nodes"
  by (metis dom_map_of_conv_image_fst first_occurrences_set set_map)

lemma getConnectedComponent_master:
  assumes wf: "well_formed h nodes"
  shows "\<exists>m h2 h'. build_shell_graph nodes h = Inr (m, h2) \<and>
           map fst m = first_occurrences nodes \<and>
           getConnectedComponent nodes h =
             Some (Inr (component_groups (connected h nodes) (first_occurrences nodes), h')) \<and>
           assign_inv h m (edges h nodes) h'
             (representatives (connected h nodes) [] (first_occurrences nodes))
             (int (length (representatives (connected h nodes) [] (first_occurrences nodes))))"
proof -
  let ?E = "edges h nodes"
  let ?keys = "first_occurrences nodes"
  let ?reps = "representatives (sym_reach ?E) [] ?keys"
  from build_shell_graph_inv [OF wf]
  obtain m h2 where b: "build_shell_graph nodes h = Inr (m, h2)"
    and keys: "map fst m = ?keys" and inv: "link_inv h m h2 ?E" by blast
  have dom: "dom (map_of m) = set nodes" by (rule dom_shell_map [OF keys])
  have E: "?E \<subseteq> dom (map_of m) \<times> dom (map_of m)"
    using wf unfolding dom edges_def well_formed_def by blast
  have a0: "assign_inv h m ?E h2 [] 0"
    using inv unfolding link_inv_def assign_inv_def unassigned_def by simp
  have ksub: "set ?keys \<subseteq> dom (map_of m)" by (simp add: dom)
  from assign_groups_inv [OF a0 ksub E]
  obtain cnt h3 where ag: "assign_groups m ?keys 0 h2 = Some (Inr (cnt, h3))"
    and a3: "assign_inv h m ?E h3 ?reps cnt" by auto
  have cnt: "cnt = int (length ?reps)"
    and in_seen: "\<And>i k a. i < length ?reps \<Longrightarrow> map_of m k = Some a \<Longrightarrow>
        sym_reach ?E (?reps ! i) k \<Longrightarrow> g (h3 ! a) = Some (int i)"
    using a3 unfolding assign_inv_def by blast+
  have cover: "\<exists>i<length ?reps. sym_reach ?E (?reps ! i) k" if "k \<in> set ?keys" for k
  proof -
    from representatives_cover [of "sym_reach ?E" k ?keys "[]"] that
    obtain r where "r \<in> set ?reps" "sym_reach ?E r k" by auto
    then show ?thesis unfolding in_set_conv_nth by blast
  qed
  have hg: "has_group m h3 i k \<longleftrightarrow> sym_reach ?E (?reps ! i) k"
    if k: "k \<in> set ?keys" and i: "i < length ?reps" for i k
  proof
    assume "has_group m h3 i k"
    then obtain a where a: "map_of m k = Some a" and gi: "g (h3 ! a) = Some (int i)"
      by (auto simp: has_group_def)
    from cover [OF k] obtain j where j: "j < length ?reps" "sym_reach ?E (?reps ! j) k" by blast
    from in_seen [OF j(1) a j(2)] gi have "j = i" by simp
    then show "sym_reach ?E (?reps ! i) k" using j by simp
  next
    assume r: "sym_reach ?E (?reps ! i) k"
    obtain a where a: "map_of m k = Some a" using k ksub by blast
    from in_seen [OF i a r] a show "has_group m h3 i k" by (auto simp: has_group_def)
  qed
  have pre: "\<forall>k\<in>set ?keys. \<exists>i<length (newMatrix cnt). has_group m h3 i k"
  proof
    fix k assume k: "k \<in> set ?keys"
    from cover [OF k] obtain i where i: "i < length ?reps" "sym_reach ?E (?reps ! i) k" by blast
    then show "\<exists>i<length (newMatrix cnt). has_group m h3 i k"
      using hg [OF k i(1)] cnt by (auto simp: newMatrix_def)
  qed
  have "fill_groups m ?keys h3 (newMatrix cnt) =
      Inr (map (\<lambda>i. newMatrix cnt ! i @ filter (has_group m h3 i) ?keys) [0..<length (newMatrix cnt)])"
    by (rule fill_groups_result [OF pre])
  also have "map (\<lambda>i. newMatrix cnt ! i @ filter (has_group m h3 i) ?keys) [0..<length (newMatrix cnt)]
      = map (\<lambda>i. filter (sym_reach ?E (?reps ! i)) ?keys) [0..<length ?reps]"
    using cnt hg by (intro map_cong) (auto simp: newMatrix_def intro: filter_cong)
  also have "\<dots> = component_groups (sym_reach ?E) ?keys"
    unfolding component_groups_def by (rule map_nth_fun)
  finally have fg: "fill_groups m ?keys h3 (newMatrix cnt) = Inr (component_groups (sym_reach ?E) ?keys)" .
  have "getConnectedComponent nodes h = Some (Inr (component_groups (sym_reach ?E) ?keys, h3))"
    by (simp add: getConnectedComponent_def b keys ag fg)
  then show ?thesis using b keys a3 cnt by (auto simp: connected_sym_reach)
qed

section \<open>Connection and the groups of the result\<close>

lemma connected_refl: "connected h nodes a a"
  by (simp add: connected_sym_reach)

lemma connected_sym: "connected h nodes a b \<Longrightarrow> connected h nodes b a"
  unfolding connected_sym_reach by (rule sym_reach_sym)

lemma connected_trans:
  "connected h nodes a b \<Longrightarrow> connected h nodes b c \<Longrightarrow> connected h nodes a c"
  unfolding connected_sym_reach by (rule sym_reach_trans)

lemma representatives_subseq: "subseq (representatives conn seen ks) ks"
  by (induction ks arbitrary: seen) auto

lemma representatives_fresh:
  "r \<in> set (representatives conn seen ks) \<Longrightarrow> s \<in> set seen \<Longrightarrow> \<not> conn s r"
proof (induction ks arbitrary: seen)
  case Nil
  then show ?case by simp
next
  case (Cons k ks)
  show ?case
  proof (cases "\<exists>x\<in>set seen. conn x k")
    case True
    then show ?thesis using Cons by simp
  next
    case False
    then have "r = k \<or> r \<in> set (representatives conn (seen @ [k]) ks)"
      using Cons.prems(1) by simp
    then show ?thesis
    proof
      assume "r = k"
      then show ?thesis using False Cons.prems(2) by blast
    next
      assume "r \<in> set (representatives conn (seen @ [k]) ks)"
      from Cons.IH [OF this, of ] Cons.prems(2) show ?thesis by simp
    qed
  qed
qed

lemma representatives_apart:
  assumes sym: "\<And>x y. conn x y \<Longrightarrow> conn y x"
    and trans: "\<And>x y z. conn x y \<Longrightarrow> conn y z \<Longrightarrow> conn x z"
  shows "sorted_wrt (\<lambda>r r'. \<forall>x. \<not> (conn r x \<and> conn r' x)) (representatives conn seen ks)"
proof (induction ks arbitrary: seen)
  case Nil
  then show ?case by simp
next
  case (Cons k ks)
  show ?case
  proof (cases "\<exists>x\<in>set seen. conn x k")
    case True
    then show ?thesis using Cons.IH [of seen] by simp
  next
    case False
    have "\<not> (conn k x \<and> conn r' x)" if "r' \<in> set (representatives conn (seen @ [k]) ks)" for r' x
    proof
      assume "conn k x \<and> conn r' x"
      then have "conn k r'" using sym [of r' x] trans [of k x r'] by blast
      moreover have "\<not> conn k r'" using representatives_fresh [OF that, of k] by simp
      ultimately show False by simp
    qed
    then show ?thesis using False Cons.IH [of "seen @ [k]"] by simp
  qed
qed

lemma distinct_concat_filter:
  assumes "distinct keys"
    and "sorted_wrt (\<lambda>r r'. \<forall>x. \<not> (conn r x \<and> conn r' x)) rs"
  shows "distinct (concat (map (\<lambda>r. filter (conn r) keys) rs))"
  using assms(2)
proof (induction rs)
  case Nil
  then show ?case by simp
next
  case (Cons r rs)
  then show ?case using assms(1) by auto
qed

lemma component_groups_distinct:
  assumes "distinct keys"
    and "\<And>x y. conn x y \<Longrightarrow> conn y x"
    and "\<And>x y z. conn x y \<Longrightarrow> conn y z \<Longrightarrow> conn x z"
  shows "distinct (concat (component_groups conn keys))"
  unfolding component_groups_def
  by (rule distinct_concat_filter [OF assms(1) representatives_apart [of conn, OF assms(2,3)]])

lemma component_groups_set:
  assumes "\<And>x. conn x x"
  shows "set (concat (component_groups conn keys)) = set keys"
proof
  show "set (concat (component_groups conn keys)) \<subseteq> set keys"
    by (auto simp: component_groups_def)
  show "set keys \<subseteq> set (concat (component_groups conn keys))"
  proof
    fix k assume k: "k \<in> set keys"
    from representatives_cover [of conn k keys "[]", OF assms k]
    obtain r where "r \<in> set (representatives conn [] keys)" "conn r k" by auto
    then show "k \<in> set (concat (component_groups conn keys))"
      using k by (auto simp: component_groups_def)
  qed
qed

lemma component_groups_same:
  assumes refl: "\<And>x. conn x x"
    and sym: "\<And>x y. conn x y \<Longrightarrow> conn y x"
    and trans: "\<And>x y z. conn x y \<Longrightarrow> conn y z \<Longrightarrow> conn x z"
    and a: "a \<in> set keys" and b: "b \<in> set keys"
  shows "(\<exists>grp\<in>set (component_groups conn keys). a \<in> set grp \<and> b \<in> set grp) \<longleftrightarrow> conn a b"
proof
  assume "\<exists>grp\<in>set (component_groups conn keys). a \<in> set grp \<and> b \<in> set grp"
  then obtain r where "conn r a" "conn r b" by (auto simp: component_groups_def)
  then show "conn a b" using sym [of r a] trans [of a r b] by blast
next
  assume ab: "conn a b"
  from representatives_cover [of conn a keys "[]", OF refl a]
  obtain r where r: "r \<in> set (representatives conn [] keys)" "conn r a" by auto
  then have "conn r b" using ab trans [of r a b] by blast
  then show "\<exists>grp\<in>set (component_groups conn keys). a \<in> set grp \<and> b \<in> set grp"
    using r a b by (auto simp: component_groups_def)
qed

lemma representatives_subset: "set (representatives conn seen ks) \<subseteq> set ks"
  by (induction ks arbitrary: seen) auto

lemma representatives_head:
  assumes refl: "\<And>x. conn x x"
    and sym: "\<And>x y. conn x y \<Longrightarrow> conn y x"
    and trans: "\<And>x y z. conn x y \<Longrightarrow> conn y z \<Longrightarrow> conn x z"
  shows "\<forall>p\<in>set pre. \<exists>s\<in>set seen. conn s p \<Longrightarrow> r \<in> set (representatives conn seen ks) \<Longrightarrow>
         hd (filter (conn r) (pre @ ks)) = r"
proof (induction ks arbitrary: seen pre)
  case Nil
  then show ?case by simp
next
  case (Cons k ks)
  show ?case
  proof (cases "\<exists>s\<in>set seen. conn s k")
    case True
    then have r: "r \<in> set (representatives conn seen ks)" using Cons.prems(2) by simp
    have "\<forall>p\<in>set (pre @ [k]). \<exists>s\<in>set seen. conn s p" using Cons.prems(1) True by simp
    from Cons.IH [OF this r] show ?thesis by simp
  next
    case False
    then have "r = k \<or> r \<in> set (representatives conn (seen @ [k]) ks)"
      using Cons.prems(2) by simp
    then show ?thesis
    proof
      assume rk: "r = k"
      have "\<not> conn k p" if "p \<in> set pre" for p
      proof
        assume kp: "conn k p"
        from Cons.prems(1) that obtain s where s: "s \<in> set seen" "conn s p" by blast
        then have "conn s k" using sym [OF kp] trans [of s p k] by blast
        then show False using False s(1) by blast
      qed
      then have "filter (conn k) pre = []" by (simp add: filter_empty_conv)
      then show ?thesis using rk refl by simp
    next
      assume r: "r \<in> set (representatives conn (seen @ [k]) ks)"
      have "\<forall>p\<in>set (pre @ [k]). \<exists>s\<in>set (seen @ [k]). conn s p"
        using Cons.prems(1) refl by auto
      from Cons.IH [OF this r] show ?thesis by simp
    qed
  qed
qed

lemma component_groups_heads:
  assumes "\<And>x. conn x x" "\<And>x y. conn x y \<Longrightarrow> conn y x"
    "\<And>x y z. conn x y \<Longrightarrow> conn y z \<Longrightarrow> conn x z"
  shows "map hd (component_groups conn keys) = representatives conn [] keys"
proof -
  have "hd (filter (conn r) keys) = r" if "r \<in> set (representatives conn [] keys)" for r
    using representatives_head [of conn "[]" "[]" r keys, OF assms _ that] by simp
  then show ?thesis by (simp add: component_groups_def comp_def map_idI)
qed

lemma component_groups_nonempty:
  assumes "\<And>x. conn x x" "grp \<in> set (component_groups conn keys)"
  shows "grp \<noteq> [] \<and> subseq grp keys"
proof -
  from assms(2) obtain r where r: "r \<in> set (representatives conn [] keys)"
    and grp: "grp = filter (conn r) keys" by (auto simp: component_groups_def)
  have "r \<in> set keys" using r representatives_subset [of conn "[]" keys] by blast
  then have "r \<in> set grp" using assms(1) grp by simp
  then have "grp \<noteq> []" by auto
  then show ?thesis using grp by simp
qed

lemma count_list_distinct: "distinct xs \<Longrightarrow> x \<in> set xs \<Longrightarrow> count_list xs x = 1"
  by (induction xs) auto

lemma shells_ok_frame:
  assumes "shells_ok h m h'" "a < length h"
  shows "h' ! a = h ! a"
proof -
  have "take (length h) h' ! a = h' ! a" using assms(2) by simp
  then show ?thesis using assms(1) by (simp add: shells_ok_def)
qed

lemma well_formed_frame:
  assumes wf: "well_formed h nodes" and ok: "shells_ok h m h'"
  shows "well_formed h' nodes" and "connected h' nodes = connected h nodes"
proof -
  have same: "h' ! u = h ! u" if "u \<in> set nodes" for u
    using shells_ok_frame [OF ok] wf that by (simp add: well_formed_def)
  have len: "length h \<le> length h'" using ok by (simp add: shells_ok_def)
  show "well_formed h' nodes"
    using wf len unfolding well_formed_def by (auto simp: same)
  have "edges h' nodes = edges h nodes" by (auto simp: edges_def same)
  then show "connected h' nodes = connected h nodes" by (simp add: fun_eq_iff connected_def)
qed

section \<open>A call that returns had a closed input\<close>

lemma link_nexts_success:
  "link_nexts m a vs h = Inr h' \<Longrightarrow> set vs \<subseteq> dom (map_of m)"
  by (induction vs arbitrary: h) (auto split: option.splits)

lemma link_nodes_success:
  assumes "link_nodes m ns h = Inr h'" "link_inv h0 m h Ed"
    and "\<forall>u\<in>set ns. u \<in> dom (map_of m) \<and> u < length h0"
  shows "\<forall>u\<in>set ns. set (nextNodes (h0 ! u)) \<subseteq> dom (map_of m)"
  using assms
proof (induction ns arbitrary: h Ed)
  case Nil
  then show ?case by simp
next
  case (Cons u ns)
  obtain a where a: "map_of m u = Some a" using Cons.prems(3) by auto
  have u: "u < length h0" using Cons.prems(3) by simp
  have "take (length h0) h ! u = h ! u" using u by simp
  moreover have "take (length h0) h = h0"
    using Cons.prems(2) by (simp add: link_inv_def shells_ok_def)
  ultimately have hu: "h ! u = h0 ! u" by simp
  from Cons.prems(1) obtain h1 where h1: "link_nexts m a (nextNodes (h0 ! u)) h = Inr h1"
    and rest: "link_nodes m ns h1 = Inr h'"
    by (auto simp: a hu split: sum.splits)
  have sub: "set (nextNodes (h0 ! u)) \<subseteq> dom (map_of m)" by (rule link_nexts_success [OF h1])
  from link_nexts_inv [OF Cons.prems(2) a sub] h1
  have "link_inv h0 m h1 (Ed \<union> {u} \<times> set (nextNodes (h0 ! u)))" by simp
  from Cons.IH [OF rest this] Cons.prems(3) sub show ?case by simp
qed

lemma returns_well_formed:
  assumes valid: "\<forall>n\<in>set nodes. n < length h"
    and run: "getConnectedComponent nodes h = Some (Inr res)"
  shows "well_formed h nodes"
proof -
  obtain m h1 where ms: "make_shells nodes [] h = (m, h1)" by (metis surj_pair)
  have keys: "map fst m = first_occurrences nodes" by (rule make_shells_empty_keys [OF ms])
  have dom: "dom (map_of m) = set nodes" by (rule dom_shell_map [OF keys])
  have h1: "h1 = h @ map (\<lambda>n. shell n [] (- 1)) nodes" by (rule make_shells_heap [OF ms])
  have look: "length h \<le> a \<and> a < length h1 \<and> h1 ! a = shell n [] (- 1)" if "map_of m n = Some a" for n a
    using make_shells_lookup [OF ms that] by simp
  have inv: "link_inv h m h1 {}"
    unfolding link_inv_def shells_ok_def linked_def unassigned_def
    using h1 look by (auto simp: shell_def)
  obtain h2 where "link_nodes m nodes h1 = Inr h2"
    using run by (auto simp: getConnectedComponent_def build_shell_graph_def ms split: sum.splits)
  from link_nodes_success [OF this inv] valid dom
  show ?thesis by (simp add: well_formed_def)
qed

section \<open>Examples\<close>

lemma two_pairs_well_formed: "well_formed two_pairs [0, 1, 2, 3]"
  by (simp add: well_formed_def two_pairs_def plain_node_def)

lemma two_pairs_dup_well_formed: "well_formed two_pairs [2, 3, 2, 0, 1, 0]"
  by (simp add: well_formed_def two_pairs_def plain_node_def)

lemma triangle_well_formed: "well_formed triangle [0, 1, 2, 3]"
  by (simp add: well_formed_def triangle_def plain_node_def)

lemma two_pairs_run:
  "getConnectedComponent [0, 1, 2, 3] two_pairs =
     Some (Inr ([[0, 1], [2, 3]],
       [plain_node [1], plain_node [], plain_node [3], plain_node [],
        shell 0 [5] 0, shell 1 [4] 0, shell 2 [7] 1, shell 3 [6] 1]))"
  by code_simp

section \<open>The result of getConnectedComponent\<close>

text \<open>
  Claim C1. For a well-formed (closed) input the call returns, and two input nodes lie in
  one group of the result exactly when they are connected by a path of input edges, each
  taken in either direction.
\<close>

theorem same_group_iff_connected:
  assumes "well_formed h nodes"
  shows "\<exists>groups h'. getConnectedComponent nodes h = Some (Inr (groups, h')) \<and>
           (\<forall>a\<in>set nodes. \<forall>b\<in>set nodes.
              (\<exists>grp\<in>set groups. a \<in> set grp \<and> b \<in> set grp) \<longleftrightarrow> connected h nodes a b)"
proof -
  from getConnectedComponent_master [OF assms]
  obtain h' where run: "getConnectedComponent nodes h =
      Some (Inr (component_groups (connected h nodes) (first_occurrences nodes), h'))" by blast
  have "(\<exists>grp\<in>set (component_groups (connected h nodes) (first_occurrences nodes)).
            a \<in> set grp \<and> b \<in> set grp) \<longleftrightarrow> connected h nodes a b"
    if "a \<in> set nodes" "b \<in> set nodes" for a b
    by (rule component_groups_same [of "connected h nodes"])
      (use that in \<open>auto intro: connected_refl connected_sym connected_trans\<close>)
  then show ?thesis using run by blast
qed

theorem same_group_iff_connected_witness:
  "connected two_pairs [0, 1, 2, 3] 0 1 \<and> \<not> connected two_pairs [0, 1, 2, 3] 1 2"
proof -
  from same_group_iff_connected [OF two_pairs_well_formed]
  have "\<forall>a\<in>set [0, 1, 2, 3]. \<forall>b\<in>set [0, 1, 2, 3].
      (\<exists>grp\<in>set [[0, 1], [2, 3]]. a \<in> set grp \<and> b \<in> set grp) \<longleftrightarrow>
      connected two_pairs [0, 1, 2, 3] a b"
    unfolding two_pairs_run by simp
  then have "(\<exists>grp\<in>set [[0, 1], [2, 3::nat]]. 0 \<in> set grp \<and> 1 \<in> set grp) \<longleftrightarrow>
      connected two_pairs [0, 1, 2, 3] 0 1"
    and "(\<exists>grp\<in>set [[0, 1], [2, 3::nat]]. 1 \<in> set grp \<and> 2 \<in> set grp) \<longleftrightarrow>
      connected two_pairs [0, 1, 2, 3] 1 2"
    by simp_all
  then show ?thesis by simp
qed

text \<open>
  Claim C2. For a well-formed input the call returns groups whose concatenation has no
  repetition and holds exactly the input nodes: no input node is omitted, none occurs in
  two groups and none occurs twice in one group.
\<close>

theorem every_node_in_one_group:
  assumes "well_formed h nodes"
  shows "\<exists>groups h'. getConnectedComponent nodes h = Some (Inr (groups, h')) \<and>
           distinct (concat groups) \<and> set (concat groups) = set nodes"
proof -
  from getConnectedComponent_master [OF assms]
  obtain h' where run: "getConnectedComponent nodes h =
      Some (Inr (component_groups (connected h nodes) (first_occurrences nodes), h'))" by blast
  have "distinct (concat (component_groups (connected h nodes) (first_occurrences nodes)))"
    by (rule component_groups_distinct)
      (auto intro: connected_sym connected_trans)
  moreover have "set (concat (component_groups (connected h nodes) (first_occurrences nodes))) = set nodes"
    using component_groups_set [of "connected h nodes" "first_occurrences nodes"]
    by (simp add: connected_refl)
  ultimately show ?thesis using run by blast
qed

theorem every_node_in_one_group_witness:
  "\<exists>groups h'. getConnectedComponent [0, 1, 2, 3] triangle = Some (Inr (groups, h')) \<and>
     distinct (concat groups) \<and> set (concat groups) = set [0, 1, 2, 3]"
  by (rule every_node_in_one_group [OF triangle_well_formed])

lemma has_group_unique: "has_group m h i k \<Longrightarrow> has_group m h j k \<Longrightarrow> i = j"
  by (auto simp: has_group_def)

lemma representatives_append:
  "representatives conn seen (xs @ ys) =
     representatives conn seen xs @ representatives conn (seen @ representatives conn seen xs) ys"
  by (induction xs arbitrary: seen) simp_all

text \<open>
  Claim C5, as amended. The third loop scans the keys of the map, that is the distinct
  input nodes in the order of their first occurrences. For a well-formed input the call
  returns and
  \<^item> the shell of every input node carries an identifier that is a position of the result;
  \<^item> the \<open>i\<close>-th group holds exactly the keys whose shell carries \<open>i\<close>, in scan
    order, and is not empty; its first node is the key at which \<open>i\<close> was allocated, and
    a node carries \<open>i\<close> exactly when it is connected to that key;
  \<^item> the first nodes of the groups occur in scan order in the order of their identifiers;
  \<^item> after any prefix of the scan the identifiers carried by the scanned keys are exactly
    \<open>0, \<dots>, c - 1\<close> for some \<open>c\<close>: each fresh identifier is the next integer, from \<open>0\<close>.
\<close>

theorem groups_follow_key_order:
  assumes "well_formed h nodes"
  shows "\<exists>m h2 groups h'. build_shell_graph nodes h = Inr (m, h2) \<and>
           getConnectedComponent nodes h = Some (Inr (groups, h')) \<and>
           map fst m = first_occurrences nodes \<and>
           (\<forall>n\<in>set nodes. \<exists>i<length groups. has_group m h' i n) \<and>
           (\<forall>i<length groups.
              groups ! i = filter (has_group m h' i) (first_occurrences nodes) \<and>
              groups ! i \<noteq> [] \<and>
              (\<forall>n\<in>set nodes. has_group m h' i n \<longleftrightarrow> connected h nodes (hd (groups ! i)) n)) \<and>
           subseq (map hd groups) (first_occurrences nodes) \<and>
           (\<forall>p\<le>length (first_occurrences nodes). \<exists>c. \<forall>i.
              (\<exists>k\<in>set (take p (first_occurrences nodes)). has_group m h' i k) \<longleftrightarrow> i < c)"
proof -
  let ?conn = "connected h nodes"
  let ?keys = "first_occurrences nodes"
  let ?reps = "representatives ?conn [] ?keys"
  let ?groups = "component_groups ?conn ?keys"
  from getConnectedComponent_master [OF assms]
  obtain m h2 h' where b: "build_shell_graph nodes h = Inr (m, h2)"
    and keys: "map fst m = ?keys"
    and run: "getConnectedComponent nodes h = Some (Inr (?groups, h'))"
    and inv: "assign_inv h m (edges h nodes) h' ?reps (int (length ?reps))" by blast
  have dom: "dom (map_of m) = set nodes" by (rule dom_shell_map [OF keys])
  have len: "length ?groups = length ?reps" by (simp add: component_groups_def)
  have in_seen: "has_group m h' i k"
    if i: "i < length ?reps" and k: "k \<in> set nodes" and c: "?conn (?reps ! i) k" for i k
  proof -
    obtain a where a: "map_of m k = Some a" using k dom by auto
    have "g (h' ! a) = Some (int i)"
      using inv i c a unfolding assign_inv_def connected_sym_reach by blast
    then show ?thesis using a by (auto simp: has_group_def)
  qed
  have cover: "\<exists>i<length ?reps. ?conn (?reps ! i) k" if "k \<in> set nodes" for k
  proof -
    have "k \<in> set ?keys" using that by simp
    from representatives_cover [of ?conn k ?keys "[]", OF connected_refl this]
    obtain r where "r \<in> set ?reps" "?conn r k" by auto
    then show ?thesis unfolding in_set_conv_nth by blast
  qed
  have hg: "has_group m h' i k \<longleftrightarrow> ?conn (?reps ! i) k"
    if i: "i < length ?reps" and k: "k \<in> set nodes" for i k
  proof
    assume hk: "has_group m h' i k"
    from cover [OF k] obtain j where j: "j < length ?reps" "?conn (?reps ! j) k" by blast
    have "j = i" using has_group_unique [OF in_seen [OF j(1) k j(2)] hk] .
    then show "?conn (?reps ! i) k" using j by simp
  next
    assume "?conn (?reps ! i) k"
    then show "has_group m h' i k" using in_seen [OF i k] by blast
  qed
  have heads: "map hd ?groups = ?reps"
    by (rule component_groups_heads) (auto intro: connected_refl connected_sym connected_trans)
  have hd_i: "hd (?groups ! i) = ?reps ! i" if "i < length ?reps" for i
  proof -
    have "map hd ?groups ! i = hd (?groups ! i)" using that len by simp
    then show ?thesis using heads by simp
  qed
  have all: "\<exists>i<length ?groups. has_group m h' i n" if n: "n \<in> set nodes" for n
  proof -
    from cover [OF n] obtain i where i: "i < length ?reps" "?conn (?reps ! i) n" by blast
    from in_seen [OF i(1) n i(2)] i(1) len show ?thesis by auto
  qed
  have each: "?groups ! i = filter (has_group m h' i) ?keys \<and> ?groups ! i \<noteq> [] \<and>
      (\<forall>n\<in>set nodes. has_group m h' i n \<longleftrightarrow> ?conn (hd (?groups ! i)) n)"
    if i: "i < length ?groups" for i
  proof -
    have i': "i < length ?reps" using i len by simp
    have gi: "?groups ! i = filter (?conn (?reps ! i)) ?keys"
      using i' by (simp add: component_groups_def)
    have "filter (?conn (?reps ! i)) ?keys = filter (has_group m h' i) ?keys"
      by (rule filter_cong [OF refl]) (simp add: hg [OF i'])
    moreover have "?groups ! i \<noteq> []"
      using component_groups_nonempty [of ?conn "?groups ! i" ?keys] i connected_refl by simp
    ultimately show ?thesis using gi hg [OF i'] hd_i [OF i'] by simp
  qed
  have prefix: "\<exists>c. \<forall>i. (\<exists>k\<in>set (take p ?keys). has_group m h' i k) \<longleftrightarrow> i < c" for p
  proof -
    let ?pre = "take p ?keys"
    let ?rp = "representatives ?conn [] ?pre"
    have "?reps = representatives ?conn [] (?pre @ drop p ?keys)" by simp
    also have "\<dots> = ?rp @ representatives ?conn ([] @ ?rp) (drop p ?keys)"
      by (rule representatives_append)
    finally have split: "?reps = ?rp @ representatives ?conn ([] @ ?rp) (drop p ?keys)" .
    have le: "length ?rp \<le> length ?reps"
      using arg_cong [OF split, of length] by simp
    have nth: "?reps ! i = ?rp ! i" if "i < length ?rp" for i
      using arg_cong [OF split, of "\<lambda>xs. xs ! i"] that by (simp add: nth_append)
    have pre_nodes: "set ?pre \<subseteq> set nodes"
      using set_take_subset [of p ?keys] by simp
    have "(\<exists>k\<in>set ?pre. has_group m h' i k) \<longleftrightarrow> i < length ?rp" for i
    proof
      assume "\<exists>k\<in>set ?pre. has_group m h' i k"
      then obtain k where k: "k \<in> set ?pre" and hk: "has_group m h' i k" by blast
      from representatives_cover [of ?conn k ?pre "[]", OF connected_refl k]
      obtain r where "r \<in> set ?rp" "?conn r k" by auto
      then obtain j where j: "j < length ?rp" "?conn (?rp ! j) k"
        unfolding in_set_conv_nth by blast
      have "has_group m h' j k"
        using in_seen [of j k] j le nth [OF j(1)] k pre_nodes by auto
      then have "j = i" using hk by (rule has_group_unique)
      then show "i < length ?rp" using j by simp
    next
      assume i: "i < length ?rp"
      have "?rp ! i \<in> set ?rp" using i by simp
      then have k: "?rp ! i \<in> set ?pre" using representatives_subset [of ?conn "[]" ?pre] by blast
      have "has_group m h' i (?rp ! i)"
        using in_seen [of i "?rp ! i"] i le nth [OF i] k pre_nodes connected_refl by auto
      then show "\<exists>k\<in>set ?pre. has_group m h' i k" using k by blast
    qed
    then show ?thesis by blast
  qed
  have "subseq (map hd ?groups) ?keys" using heads by (simp add: representatives_subseq)
  then show ?thesis using b run keys all each prefix by blast
qed

theorem groups_follow_key_order_witness:
  "\<exists>m h2 groups h'. build_shell_graph [2, 3, 2, 0, 1, 0] two_pairs = Inr (m, h2) \<and>
     getConnectedComponent [2, 3, 2, 0, 1, 0] two_pairs = Some (Inr (groups, h')) \<and>
     map fst m = first_occurrences [2, 3, 2, 0, 1, 0] \<and>
     (\<exists>i<length groups. has_group m h' i 1) \<and>
     subseq (map hd groups) (first_occurrences [2, 3, 2, 0, 1, 0])"
proof -
  from groups_follow_key_order [OF two_pairs_dup_well_formed]
  obtain m h2 groups h' where "build_shell_graph [2, 3, 2, 0, 1, 0] two_pairs = Inr (m, h2)"
    and "getConnectedComponent [2, 3, 2, 0, 1, 0] two_pairs = Some (Inr (groups, h'))"
    and "map fst m = first_occurrences [2, 3, 2, 0, 1, 0]"
    and "\<forall>n\<in>set [2, 3, 2, 0, 1, 0::nat]. \<exists>i<length groups. has_group m h' i n"
    and "subseq (map hd groups) (first_occurrences [2, 3, 2, 0, 1, 0])"
    by blast
  then show ?thesis by auto
qed

text \<open>
  The claim as stated has the identifiers assigned by a scan of the shell nodes in
  construction order. With a repeated node this is not the scan order: for the input
  \<open>[0, 1, 0]\<close> the shells are built at the addresses \<open>2, 3, 4\<close>, the key \<open>0\<close> is bound
  to the last of them, and the shells carry \<open>-1, 1, 0\<close> in construction order.
\<close>

theorem identifiers_not_in_construction_order:
  "getConnectedComponent [0, 1, 0] two_single =
     Some (Inr ([[0], [1]],
       two_single @ [shell 0 [] (- 1), shell 1 [] 1, shell 0 [] 0]))"
  by code_simp

text \<open>
  Claim C6. Whenever the call returns, on input nodes that are objects of the store, every
  object that the store held at the call is unchanged: the store after the call extends
  the store before it, so each input node keeps its \<open>nextNodes\<close> and its other
  properties, and only objects allocated by the call carry a new group identifier. The
  groups of the result hold input nodes only, so no object allocated by the call is
  reachable from the result. The collection \<open>nodes\<close> is only read.
\<close>

theorem input_store_unchanged:
  assumes valid: "\<forall>n\<in>set nodes. n < length h"
    and run: "getConnectedComponent nodes h = Some (Inr (groups, h'))"
  shows "length h \<le> length h' \<and> take (length h) h' = h \<and> (\<forall>n\<in>set nodes. h' ! n = h ! n) \<and>
         set (concat groups) = set nodes"
proof -
  have wf: "well_formed h nodes" by (rule returns_well_formed [OF valid run])
  from getConnectedComponent_master [OF wf] run
  obtain m where groups: "groups = component_groups (connected h nodes) (first_occurrences nodes)"
    and inv: "assign_inv h m (edges h nodes) h'
      (representatives (connected h nodes) [] (first_occurrences nodes))
      (int (length (representatives (connected h nodes) [] (first_occurrences nodes))))" by auto
  have ok: "shells_ok h m h'" using inv by (simp add: assign_inv_def)
  have "h' ! n = h ! n" if "n \<in> set nodes" for n
    using shells_ok_frame [OF ok] valid that by simp
  moreover have "set (concat groups) = set nodes"
    unfolding groups
    using component_groups_set [of "connected h nodes" "first_occurrences nodes"]
    by (simp add: connected_refl)
  ultimately show ?thesis using ok by (simp add: shells_ok_def)
qed

theorem input_store_unchanged_witness:
  "length two_pairs \<le> length ([plain_node [1], plain_node [], plain_node [3], plain_node [],
        shell 0 [5] 0, shell 1 [4] 0, shell 2 [7] 1, shell 3 [6] 1]) \<and>
   take (length two_pairs) [plain_node [1], plain_node [], plain_node [3], plain_node [],
        shell 0 [5] 0, shell 1 [4] 0, shell 2 [7] 1, shell 3 [6] 1] = two_pairs"
proof -
  have "\<forall>n\<in>set [0, 1, 2, 3]. n < length two_pairs" by (simp add: two_pairs_def)
  from input_store_unchanged [OF this two_pairs_run] show ?thesis by blast
qed

text \<open>
  Claim C7. A second call on the same well-formed input, in the store that the first call
  left, returns the same groups.
\<close>

theorem second_run_same_groups:
  assumes wf: "well_formed h nodes"
    and run: "getConnectedComponent nodes h = Some (Inr (groups, h'))"
  shows "\<exists>h''. getConnectedComponent nodes h' = Some (Inr (groups, h''))"
proof -
  from getConnectedComponent_master [OF wf] run
  obtain m where groups: "groups = component_groups (connected h nodes) (first_occurrences nodes)"
    and inv: "assign_inv h m (edges h nodes) h'
      (representatives (connected h nodes) [] (first_occurrences nodes))
      (int (length (representatives (connected h nodes) [] (first_occurrences nodes))))" by auto
  have ok: "shells_ok h m h'" using inv by (simp add: assign_inv_def)
  note fr = well_formed_frame [OF wf ok]
  from getConnectedComponent_master [OF fr(1)] show ?thesis
    unfolding fr(2) groups by blast
qed

theorem second_run_same_groups_witness:
  "\<exists>h''. getConnectedComponent [0, 1, 2, 3]
       [plain_node [1], plain_node [], plain_node [3], plain_node [],
        shell 0 [5] 0, shell 1 [4] 0, shell 2 [7] 1, shell 3 [6] 1] =
     Some (Inr ([[0, 1], [2, 3]], h''))"
  by (rule second_run_same_groups [OF two_pairs_well_formed two_pairs_run])

text \<open>
  Claim C9. However often a node occurs in a well-formed input, the map has exactly one
  key for it, hence one shell, and the node occurs exactly once in the groups of the
  result.
\<close>

theorem duplicates_collapse:
  assumes "well_formed h nodes"
  shows "\<exists>m h2 groups h'. build_shell_graph nodes h = Inr (m, h2) \<and>
           getConnectedComponent nodes h = Some (Inr (groups, h')) \<and>
           (\<forall>n\<in>set nodes. count_list (map fst m) n = 1 \<and> count_list (concat groups) n = 1)"
proof -
  let ?groups = "component_groups (connected h nodes) (first_occurrences nodes)"
  from getConnectedComponent_master [OF assms]
  obtain m h2 h' where b: "build_shell_graph nodes h = Inr (m, h2)"
    and keys: "map fst m = first_occurrences nodes"
    and run: "getConnectedComponent nodes h = Some (Inr (?groups, h'))" by blast
  have d: "distinct (concat ?groups)"
    by (rule component_groups_distinct) (auto intro: connected_sym connected_trans)
  have s: "set (concat ?groups) = set nodes"
    using component_groups_set [of "connected h nodes" "first_occurrences nodes"]
    by (simp add: connected_refl)
  have "count_list (map fst m) n = 1 \<and> count_list (concat ?groups) n = 1" if "n \<in> set nodes" for n
  proof -
    have "n \<in> set (concat ?groups)" using that s by blast
    from count_list_distinct [OF d this]
      count_list_distinct [of "first_occurrences nodes" n] that
    show ?thesis by (simp add: keys)
  qed
  then show ?thesis using b run by blast
qed

theorem duplicates_collapse_witness:
  "\<exists>m h2 groups h'. build_shell_graph [2, 3, 2, 0, 1, 0] two_pairs = Inr (m, h2) \<and>
     getConnectedComponent [2, 3, 2, 0, 1, 0] two_pairs = Some (Inr (groups, h')) \<and>
     count_list (map fst m) 2 = 1 \<and> count_list (concat groups) 2 = 1 \<and>
     count_list (map fst m) 0 = 1 \<and> count_list (concat groups) 0 = 1"
proof -
  from duplicates_collapse [OF two_pairs_dup_well_formed]
  obtain m h2 groups h' where "build_shell_graph [2, 3, 2, 0, 1, 0] two_pairs = Inr (m, h2)"
    and "getConnectedComponent [2, 3, 2, 0, 1, 0] two_pairs = Some (Inr (groups, h'))"
    and "\<forall>n\<in>set [2, 3, 2, 0, 1, 0::nat]. count_list (map fst m) n = 1 \<and> count_list (concat groups) n = 1"
    by blast
  then show ?thesis by simp
qed

end
